theory Spec2Isabelle
  imports Main "HOL-Library.Word"
begin

unbundle bit_operations_syntax

section \<open>Data model of \<^verbatim>\<open>common/str.c\<close>\<close>

text \<open>
  Bytes are \<^verbatim>\<open>uint8_t\<close>, characters are \<^verbatim>\<open>char32_t\<close>, the decoder state is the
  16 bit field \<^verbatim>\<open>mbstate_t.state\<close> (the comment in \<^verbatim>\<open>_str_decode\<close> says: the field
  is 16b wide).  Offsets and sizes (\<^verbatim>\<open>size_t\<close>) are natural numbers: every offset of
  the functions below is bounded by a size that is checked before it is used.

  A buffer is the list of the bytes that may be accessed through the pointer.  An access
  outside of it is undefined in C; here it is the fault \<open>OutOfBounds\<close>.  A failed
  \<^verbatim>\<open>assert\<close> is the fault \<open>AssertFail\<close>.

  An identifier cannot start with an underscore here: the static function \<^verbatim>\<open>_f\<close> of the
  source is \<open>u_f\<close>.
\<close>

type_synonym u8 = "8 word"
type_synonym u16 = "16 word"
type_synonym char32_t = "32 word"

datatype fault = AssertFail | OutOfBounds

datatype errno = EOK | EOVERFLOW | EINVAL

record mbstate_t =
  state :: u16

definition rd :: "'a list \<Rightarrow> nat \<Rightarrow> fault + 'a" where
  "rd s i = (if i < length s then Inr (s ! i) else Inl OutOfBounds)"

definition wr :: "'a list \<Rightarrow> nat \<Rightarrow> 'a \<Rightarrow> fault + 'a list" where
  "wr s i v = (if i < length s then Inr (s[i := v]) else Inl OutOfBounds)"

text \<open>The short-circuit conjunction of C, on conditions that may fault.\<close>

definition and_then :: "fault + bool \<Rightarrow> fault + bool \<Rightarrow> fault + bool" where
  "and_then a b = (case a of Inl e \<Rightarrow> Inl e | Inr c \<Rightarrow> if c then b else Inr False)"

subsection \<open>Macros and byte classes\<close>

definition LO_MASK_8 :: "nat \<Rightarrow> u8" where
  "LO_MASK_8 n = ucast ((push_bit n 1 :: 32 word) - 1)"

definition LO_MASK_32 :: "nat \<Rightarrow> 32 word" where
  "LO_MASK_32 n = push_bit n 1 - 1"

text \<open>\<^verbatim>\<open>~\<close> applies to the promoted operand: the value of \<^verbatim>\<open>HI_MASK_8\<close> is an \<^verbatim>\<open>int\<close>.\<close>

definition HI_MASK_8 :: "nat \<Rightarrow> 32 word" where
  "HI_MASK_8 n = NOT (ucast (LO_MASK_8 (8 - n)))"

definition CONT_BITS :: nat where
  "CONT_BITS = 6"

definition UTF8_MASK_INITIAL2 :: u8 where "UTF8_MASK_INITIAL2 = 0x1F"
definition UTF8_MASK_INITIAL3 :: u8 where "UTF8_MASK_INITIAL3 = 0x0F"
definition UTF8_MASK_INITIAL4 :: u8 where "UTF8_MASK_INITIAL4 = 0x07"
definition UTF8_MASK_CONT :: u8 where "UTF8_MASK_CONT = 0x3F"

definition CHAR_INVALID :: char32_t where
  "CHAR_INVALID = 0xFFFFFFFF"

definition u_is_ascii :: "u8 \<Rightarrow> bool" where
  "u_is_ascii b = (b < 0x80)"

definition u_is_continuation :: "u8 \<Rightarrow> bool" where
  "u_is_continuation b = (b AND 0xC0 = 0x80)"

definition u_is_2_byte :: "u8 \<Rightarrow> bool" where
  "u_is_2_byte c = (c AND 0xE0 = 0xC0)"

definition u_is_3_byte :: "u8 \<Rightarrow> bool" where
  "u_is_3_byte c = (c AND 0xF0 = 0xE0)"

definition u_is_4_byte :: "u8 \<Rightarrow> bool" where
  "u_is_4_byte c = (c AND 0xF8 = 0xF0)"

definition u_char_continuation_bytes :: "char32_t \<Rightarrow> int" where
  "u_char_continuation_bytes c =
     (if c AND NOT (LO_MASK_32 7) = 0 then 0
      else if c AND NOT (LO_MASK_32 11) = 0 then 1
      else if c AND NOT (LO_MASK_32 16) = 0 then 2
      else if c AND NOT (LO_MASK_32 21) = 0 then 3
      else -1)"

definition u_continuation_bytes :: "u8 \<Rightarrow> int" where
  "u_continuation_bytes b =
     (if u_is_ascii b then 0
      else if u_is_2_byte b then 1
      else if u_is_3_byte b then 2
      else if u_is_4_byte b then 3
      else -1)"

definition u_is_non_shortest :: "mbstate_t \<Rightarrow> u8 \<Rightarrow> bool" where
  "u_is_non_shortest mb b =
     ((state mb = 0xFC00 \<and> b AND 0x20 = 0) \<or> (state mb = 0xFFF0 \<and> b AND 0x30 = 0))"

definition u_is_surrogate :: "mbstate_t \<Rightarrow> u8 \<Rightarrow> bool" where
  "u_is_surrogate mb b = (state mb = 0xFC0D \<and> b \<ge> 0xA0)"

subsection \<open>The decoder\<close>

text \<open>
  The loop at the end of \<^verbatim>\<open>_str_decode\<close> (the remaining edge and invalid cases).  The
  result of the decoder is the returned character, the new offset and the new state.
\<close>

function u_str_decode_loop ::
  "u8 list \<Rightarrow> nat \<Rightarrow> nat \<Rightarrow> mbstate_t \<Rightarrow> fault + (char32_t \<times> nat \<times> mbstate_t)" where
  "u_str_decode_loop s offset sz mb =
     (if offset < sz then
        (case rd s offset of
           Inl e \<Rightarrow> Inl e
         | Inr b \<Rightarrow>
             if \<not> u_is_continuation b \<or> u_is_non_shortest mb b \<or> u_is_surrogate mb b
             then Inr (CHAR_INVALID, offset, mb\<lparr>state := 0\<rparr>)
             else if state mb AND 0x8000 = 0
             then Inr (push_bit 6 (ucast (state mb)) OR ucast (b AND UTF8_MASK_CONT),
                       offset + 1, mb\<lparr>state := 0\<rparr>)
             else u_str_decode_loop s (offset + 1) sz
                    (mb\<lparr>state := ucast (push_bit 6 (ucast (state mb) :: 32 word)
                                         OR ucast (b AND UTF8_MASK_CONT))\<rparr>))
      else if state mb = 0 then Inl AssertFail
      else Inr (0, offset, mb))"
  by pat_completeness auto
termination
  by (relation "measure (\<lambda>(s, offset, sz, mb). sz - offset)") auto

declare u_str_decode_loop.simps [simp del]

text \<open>The three fast-path conditions, each read guarded by the test before it.\<close>

definition cont_at :: "u8 list \<Rightarrow> nat \<Rightarrow> fault + bool" where
  "cont_at s i = (case rd s i of Inl e \<Rightarrow> Inl e | Inr b \<Rightarrow> Inr (u_is_continuation b))"

definition fast2 :: "u8 list \<Rightarrow> nat \<Rightarrow> nat \<Rightarrow> fault + bool" where
  "fast2 s offset sz = and_then (Inr (offset < sz)) (cont_at s offset)"

definition fast3 :: "u8 list \<Rightarrow> nat \<Rightarrow> nat \<Rightarrow> fault + bool" where
  "fast3 s offset sz =
     and_then (Inr (offset + 1 < sz)) (and_then (cont_at s offset) (cont_at s (offset + 1)))"

definition fast4 :: "u8 list \<Rightarrow> nat \<Rightarrow> nat \<Rightarrow> fault + bool" where
  "fast4 s offset sz =
     and_then (Inr (offset + 2 < sz))
       (and_then (cont_at s offset) (and_then (cont_at s (offset + 1)) (cont_at s (offset + 2))))"

definition u_str_decode ::
  "u8 list \<Rightarrow> nat \<Rightarrow> nat \<Rightarrow> mbstate_t \<Rightarrow> fault + (char32_t \<times> nat \<times> mbstate_t)" where
  "u_str_decode s offset0 sz mb =
     (if \<not> offset0 \<le> sz then Inl AssertFail
      else if offset0 = sz then Inr (0, offset0, mb)
      else if state mb = 0 then
        (case rd s offset0 of
           Inl e \<Rightarrow> Inl e
         | Inr b \<Rightarrow>
             let offset = offset0 + 1 in
             if u_is_ascii b then Inr (ucast b, offset, mb)
             else if u_is_continuation b then Inr (CHAR_INVALID, offset, mb)
             else if u_is_2_byte b then
               (if b AND 0x1E = 0 then Inr (CHAR_INVALID, offset, mb)
                else case fast2 s offset sz of
                       Inl e \<Rightarrow> Inl e
                     | Inr True \<Rightarrow>
                         Inr (push_bit 6 (ucast (b AND UTF8_MASK_INITIAL2))
                                OR ucast (s ! offset AND UTF8_MASK_CONT),
                              offset + 1, mb)
                     | Inr False \<Rightarrow>
                         u_str_decode_loop s offset sz (mb\<lparr>state := ucast b XOR 0x00C0\<rparr>))
             else if u_is_3_byte b then
               (case fast3 s offset sz of
                  Inl e \<Rightarrow> Inl e
                | Inr True \<Rightarrow>
                    let ch = push_bit 12 (ucast (b AND UTF8_MASK_INITIAL3))
                               OR push_bit 6 (ucast (s ! offset AND UTF8_MASK_CONT))
                               OR ucast (s ! (offset + 1) AND UTF8_MASK_CONT) :: char32_t
                    in if ch AND 0xFFFFF800 = 0 then Inr (CHAR_INVALID, offset + 2, mb)
                       else if ch \<ge> 0xD800 \<and> ch < 0xE000 then Inr (CHAR_INVALID, offset + 2, mb)
                       else Inr (ch, offset + 2, mb)
                | Inr False \<Rightarrow>
                    u_str_decode_loop s offset sz (mb\<lparr>state := ucast b XOR 0xFCE0\<rparr>))
             else if u_is_4_byte b then
               (case fast4 s offset sz of
                  Inl e \<Rightarrow> Inl e
                | Inr True \<Rightarrow>
                    let ch = push_bit 18 (ucast (b AND UTF8_MASK_INITIAL4))
                               OR push_bit 12 (ucast (s ! offset AND UTF8_MASK_CONT))
                               OR push_bit 6 (ucast (s ! (offset + 1) AND UTF8_MASK_CONT))
                               OR ucast (s ! (offset + 2) AND UTF8_MASK_CONT) :: char32_t
                    in if ch AND 0xFFFF0000 = 0 then Inr (CHAR_INVALID, offset + 3, mb)
                       else if ch \<ge> 0x110000 then Inr (CHAR_INVALID, offset + 3, mb)
                       else Inr (ch, offset + 3, mb)
                | Inr False \<Rightarrow>
                    u_str_decode_loop s offset sz (mb\<lparr>state := ucast b XOR 0xFF00\<rparr>))
             else Inr (CHAR_INVALID, offset, mb))
      else u_str_decode_loop s offset0 sz mb)"

text \<open>
  \<^verbatim>\<open>U_SPECIAL\<close> is defined in \<^verbatim>\<open>str.h\<close>, which is not among the sources: it is the
  parameter \<open>U\<close> of the functions that use it.
\<close>

definition str_decode :: "char32_t \<Rightarrow> u8 list \<Rightarrow> nat \<Rightarrow> nat \<Rightarrow> fault + (char32_t \<times> nat)" where
  "str_decode U str offset sz =
     (case u_str_decode str offset sz \<lparr>state = 0\<rparr> of
        Inl e \<Rightarrow> Inl e
      | Inr (ch, offset', mb) \<Rightarrow>
          if ch = CHAR_INVALID \<or> state mb \<noteq> 0 then Inr (U, offset') else Inr (ch, offset'))"

definition str_decode_r ::
  "u8 list \<Rightarrow> nat \<Rightarrow> nat \<Rightarrow> char32_t \<Rightarrow> mbstate_t \<Rightarrow> fault + (char32_t \<times> nat \<times> mbstate_t)" where
  "str_decode_r str offset sz replacement mb =
     (case u_str_decode str offset sz mb of
        Inl e \<Rightarrow> Inl e
      | Inr (ch, offset', mb') \<Rightarrow>
          Inr (if ch = CHAR_INVALID then replacement else ch, offset', mb'))"

subsection \<open>The encoder\<close>

definition chr_check :: "char32_t \<Rightarrow> bool" where
  "chr_check ch = (ch \<le> 1114111)"

text \<open>
  The loop of \<^verbatim>\<open>chr_encode\<close> over the continuation bytes, from \<open>i\<close> down to 1; it
  returns the buffer and what is left of \<open>ch\<close>.
\<close>

fun chr_encode_loop :: "nat \<Rightarrow> char32_t \<Rightarrow> u8 list \<Rightarrow> nat \<Rightarrow> fault + (u8 list \<times> char32_t)" where
  "chr_encode_loop 0 ch str offset = Inr (str, ch)"
| "chr_encode_loop (Suc i) ch str offset =
     (case wr str (offset + Suc i) (ucast (0x80 OR (ch AND LO_MASK_32 CONT_BITS))) of
        Inl e \<Rightarrow> Inl e
      | Inr str' \<Rightarrow> chr_encode_loop i (drop_bit CONT_BITS ch) str' offset)"

text \<open>The result is the error code, the buffer and the offset.\<close>

definition chr_encode ::
  "char32_t \<Rightarrow> u8 list \<Rightarrow> nat \<Rightarrow> nat \<Rightarrow> fault + (errno \<times> u8 list \<times> nat)" where
  "chr_encode ch str offset sz =
     (if offset \<ge> sz then Inr (EOVERFLOW, str, offset)
      else if ch < 0x80 then
        (case wr str offset (ucast ch) of
           Inl e \<Rightarrow> Inl e
         | Inr str' \<Rightarrow> Inr (EOK, str', offset + 1))
      else if \<not> chr_check ch then Inr (EINVAL, str, offset)
      else
        let cbytes = (word_of_int (u_char_continuation_bytes ch) :: 32 word);
            b0_bits = 6 - cbytes
        in if offset + unat cbytes \<ge> sz then Inr (EOVERFLOW, str, offset)
           else
             (case chr_encode_loop (unat cbytes) ch str offset of
                Inl e \<Rightarrow> Inl e
              | Inr (str1, ch1) \<Rightarrow>
                  (case wr str1 offset
                          (ucast ((ch1 AND LO_MASK_32 (unat b0_bits))
                                    OR HI_MASK_8 (unat (8 - b0_bits - 1)))) of
                     Inl e \<Rightarrow> Inl e
                   | Inr str2 \<Rightarrow> Inr (EOK, str2, offset + unat cbytes + 1))))"

subsection \<open>The sanitizer\<close>

text \<open>
  The inner loop of \<^verbatim>\<open>_str_sanitize\<close> over the continuation bytes \<^verbatim>\<open>b[i]\<close>,
  \<open>i = 1 .. cont\<close>; \<open>p\<close> is the index of \<^verbatim>\<open>b[0]\<close> in the buffer.  It returns
  \<^verbatim>\<open>valid\<close>.
\<close>

function sanitize_valid :: "u8 list \<Rightarrow> nat \<Rightarrow> nat \<Rightarrow> nat \<Rightarrow> fault + bool" where
  "sanitize_valid str p i cont =
     (if i \<le> cont then
        (case rd str (p + i) of
           Inl e \<Rightarrow> Inl e
         | Inr b \<Rightarrow> if \<not> u_is_continuation b then Inr False
                    else sanitize_valid str p (i + 1) cont)
      else Inr True)"
  by pat_completeness auto
termination
  by (relation "measure (\<lambda>(str, p, i, cont). cont + 1 - i)") auto

declare sanitize_valid.simps [simp del]

text \<open>
  The tests of the body of the main loop on a byte \<^verbatim>\<open>b[0] = b0\<close> that is not the
  terminator, in the order of the source: \<open>True\<close> when the byte is replaced (every such
  branch of the source is \<^verbatim>\<open>b[0] = replacement; count++; continue;\<close>), \<open>False\<close> when
  the character is kept.  \<open>n\<close> is the number of bytes left.  \<^verbatim>\<open>b[1]\<close> is read once,
  after the loop above has read it.
\<close>

definition sanitize_replace :: "u8 list \<Rightarrow> nat \<Rightarrow> nat \<Rightarrow> u8 \<Rightarrow> fault + bool" where
  "sanitize_replace str p n b0 =
     (if b0 < 0x20 then Inr True
      else
        let cont = u_continuation_bytes b0 in
        if cont = 0 then Inr False
        else if cont < 0 \<or> n \<le> nat cont then Inr True
        else
          (case sanitize_valid str p 1 (nat cont) of
             Inl e \<Rightarrow> Inl e
           | Inr valid \<Rightarrow>
               if \<not> valid then Inr True
               else
                 (case rd str (p + 1) of
                    Inl e \<Rightarrow> Inl e
                  | Inr b1 \<Rightarrow>
                      if cont = 1 \<and> b0 AND 0x1E = 0 then Inr True
                      else if cont = 1 \<and> (b0 = 0xC2 \<and> b1 < 0xA0) then Inr True
                      else if cont = 2 \<and> b0 AND 0x0F = 0 \<and> b1 AND 0x20 = 0 then Inr True
                      else if cont = 3 \<and> b0 AND 0x07 = 0 \<and> b1 AND 0x30 = 0 then Inr True
                      else if cont = 2 \<and> b0 = 0xED \<and> b1 \<ge> 0xA0 then Inr True
                      else if cont = 3 \<and> (b0 > 0xF4 \<or> (b0 = 0xF4 \<and> b1 \<ge> 0x90)) then Inr True
                      else Inr False)))"

text \<open>
  The main loop: \<open>p\<close> is the index of \<^verbatim>\<open>b\<close>, \<open>n\<close> the number of bytes left.  A kept
  character moves \<^verbatim>\<open>b\<close> by \<^verbatim>\<open>cont\<close> and the loop header by one more.  The result is
  the buffer and \<^verbatim>\<open>count\<close>.
\<close>

function u_str_sanitize_loop ::
  "u8 list \<Rightarrow> nat \<Rightarrow> nat \<Rightarrow> u8 \<Rightarrow> nat \<Rightarrow> fault + (u8 list \<times> nat)" where
  "u_str_sanitize_loop str p n replacement count =
     (if n > 0 then
        (case rd str p of
           Inl e \<Rightarrow> Inl e
         | Inr b0 \<Rightarrow>
             if b0 = 0 then Inr (str, count)
             else
               (case sanitize_replace str p n b0 of
                  Inl e \<Rightarrow> Inl e
                | Inr True \<Rightarrow>
                    u_str_sanitize_loop (str[p := replacement]) (p + 1) (n - 1) replacement (count + 1)
                | Inr False \<Rightarrow>
                    u_str_sanitize_loop str (p + nat (u_continuation_bytes b0) + 1)
                      (n - nat (u_continuation_bytes b0) - 1) replacement count))
      else Inr (str, count))"
  by pat_completeness auto
termination
  by (relation "measure (\<lambda>(str, p, n, replacement, count). n)") auto

declare u_str_sanitize_loop.simps [simp del]

definition u_str_sanitize :: "u8 list \<Rightarrow> nat \<Rightarrow> u8 \<Rightarrow> fault + (u8 list \<times> nat)" where
  "u_str_sanitize str n replacement = u_str_sanitize_loop str 0 n replacement 0"

definition str_sanitize :: "u8 list \<Rightarrow> nat \<Rightarrow> u8 \<Rightarrow> fault + (u8 list \<times> nat)" where
  "str_sanitize str n replacement = u_str_sanitize str n replacement"

subsection \<open>Comparison\<close>

text \<open>
  \<^verbatim>\<open>str_cmp\<close> compares values of type \<^verbatim>\<open>char\<close>.  Whether \<^verbatim>\<open>char\<close> is signed is
  decided by the platform, not by the sources: it is the parameter \<open>char_signed\<close> (the
  header of \<^verbatim>\<open>str.c\<close> says that a \<^verbatim>\<open>char\<close> is usually a signed 8 bit integer).
\<close>

definition char_less :: "bool \<Rightarrow> u8 \<Rightarrow> u8 \<Rightarrow> bool" where
  "char_less char_signed a b = (if char_signed then sint a < sint b else a < b)"

text \<open>The two pointers are the parts of the buffers that start at them.\<close>

fun str_cmp :: "bool \<Rightarrow> u8 list \<Rightarrow> u8 list \<Rightarrow> fault + int" where
  "str_cmp char_signed (c1 # s1) (c2 # s2) =
     (if c1 = c2 \<and> c1 \<noteq> 0 then str_cmp char_signed s1 s2
      else if c1 = c2 then Inr 0
      else Inr (if char_less char_signed c1 c2 then -1 else 1))"
| "str_cmp char_signed _ _ = Inl OutOfBounds"

subsection \<open>Copying\<close>

text \<open>\<^verbatim>\<open>_str_cpy\<close>; \<open>d\<close> and \<open>i\<close> are the positions of the two pointers.\<close>

function u_str_cpy :: "u8 list \<Rightarrow> nat \<Rightarrow> u8 list \<Rightarrow> nat \<Rightarrow> fault + u8 list" where
  "u_str_cpy dest d src i =
     (case rd src i of
        Inl e \<Rightarrow> Inl e
      | Inr c \<Rightarrow>
          if c \<noteq> 0 then
            (case wr dest d c of
               Inl e \<Rightarrow> Inl e
             | Inr dest' \<Rightarrow> u_str_cpy dest' (d + 1) src (i + 1))
          else wr dest d 0)"
  by pat_completeness auto
termination
  by (relation "measure (\<lambda>(dest, d, src, i). length src - i)")
     (auto simp: rd_def split: if_splits)

declare u_str_cpy.simps [simp del]

text \<open>The loop of \<^verbatim>\<open>_str_cpyn\<close>, up to \<^verbatim>\<open>dest_top\<close>.\<close>

function u_str_cpyn_loop :: "u8 list \<Rightarrow> nat \<Rightarrow> nat \<Rightarrow> u8 list \<Rightarrow> nat \<Rightarrow> fault + u8 list" where
  "u_str_cpyn_loop dest d dest_top src i =
     (case rd src i of
        Inl e \<Rightarrow> Inl e
      | Inr c \<Rightarrow>
          if c \<noteq> 0 \<and> d < dest_top then
            (case wr dest d c of
               Inl e \<Rightarrow> Inl e
             | Inr dest' \<Rightarrow> u_str_cpyn_loop dest' (d + 1) dest_top src (i + 1))
          else wr dest d 0)"
  by pat_completeness auto
termination
  by (relation "measure (\<lambda>(dest, d, dest_top, src, i). length src - i)")
     (auto simp: rd_def split: if_splits)

declare u_str_cpyn_loop.simps [simp del]

text \<open>
  \<^verbatim>\<open>STR_NO_LIMIT\<close> is defined in \<^verbatim>\<open>str.h\<close>, which is not among the sources: it is the
  parameter \<open>no_limit\<close>.
\<close>

definition u_str_cpyn :: "nat \<Rightarrow> u8 list \<Rightarrow> nat \<Rightarrow> u8 list \<Rightarrow> fault + u8 list" where
  "u_str_cpyn no_limit dest sz src =
     (if sz = 0 then Inl AssertFail
      else if sz = no_limit then u_str_cpy dest 0 src 0
      else u_str_cpyn_loop dest 0 (sz - 1) src 0)"

definition str_cpy :: "nat \<Rightarrow> char32_t \<Rightarrow> u8 list \<Rightarrow> nat \<Rightarrow> u8 list \<Rightarrow> fault + u8 list" where
  "str_cpy no_limit U dest sz src =
     (if \<not> sz > 0 then Inl AssertFail
      else case u_str_cpyn no_limit dest sz src of
             Inl e \<Rightarrow> Inl e
           | Inr dest1 \<Rightarrow>
               (case u_str_sanitize dest1 sz (ucast U) of
                  Inl e \<Rightarrow> Inl e
                | Inr (dest2, count) \<Rightarrow> Inr dest2))"

text \<open>
  The characters that the three fast paths of \<^verbatim>\<open>_str_decode\<close> assemble, named for the
  proofs.
\<close>

definition utf8_2 :: "u8 \<Rightarrow> u8 \<Rightarrow> char32_t" where
  "utf8_2 b b1 = push_bit 6 (ucast (b AND UTF8_MASK_INITIAL2)) OR ucast (b1 AND UTF8_MASK_CONT)"

definition utf8_3 :: "u8 \<Rightarrow> u8 \<Rightarrow> u8 \<Rightarrow> char32_t" where
  "utf8_3 b b1 b2 =
     push_bit 12 (ucast (b AND UTF8_MASK_INITIAL3)) OR push_bit 6 (ucast (b1 AND UTF8_MASK_CONT))
       OR ucast (b2 AND UTF8_MASK_CONT)"

definition utf8_4 :: "u8 \<Rightarrow> u8 \<Rightarrow> u8 \<Rightarrow> u8 \<Rightarrow> char32_t" where
  "utf8_4 b b1 b2 b3 =
     push_bit 18 (ucast (b AND UTF8_MASK_INITIAL4)) OR push_bit 12 (ucast (b1 AND UTF8_MASK_CONT))
       OR push_bit 6 (ucast (b2 AND UTF8_MASK_CONT)) OR ucast (b3 AND UTF8_MASK_CONT)"

subsection \<open>Size of a string\<close>

text \<open>\<^verbatim>\<open>_str_size\<close>: the number of bytes before the terminator.\<close>

fun u_str_size_loop :: "u8 list \<Rightarrow> nat \<Rightarrow> fault + nat" where
  "u_str_size_loop [] sz = Inl OutOfBounds"
| "u_str_size_loop (c # str) sz = (if c \<noteq> 0 then u_str_size_loop str (sz + 1) else Inr sz)"

definition u_str_size :: "u8 list \<Rightarrow> fault + nat" where
  "u_str_size str = u_str_size_loop str 0"

subsection \<open>Transcoding to UTF-16\<close>

text \<open>
  The loop of \<^verbatim>\<open>str_to_utf16\<close>; the result is \<^verbatim>\<open>rc\<close>, the destination and
  \<^verbatim>\<open>idx\<close>.  The loop ends when \<^verbatim>\<open>str_decode\<close> returns 0 or faults: a computation
  that does not end has the value \<open>None\<close>.
\<close>

partial_function (option) str_to_utf16_loop ::
  "nat \<Rightarrow> char32_t \<Rightarrow> u16 list \<Rightarrow> nat \<Rightarrow> u8 list \<Rightarrow> nat \<Rightarrow> nat
     \<Rightarrow> (fault + (errno \<times> u16 list \<times> nat)) option" where
  "str_to_utf16_loop no_limit U dest dlen src offset idx =
     (case str_decode U src offset no_limit of
        Inl e \<Rightarrow> Some (Inl e)
      | Inr (c, offset') \<Rightarrow>
          if c = 0 then Some (Inr (EOK, dest, idx))
          else if c > 0x10000 then
            (if idx + 2 \<ge> dlen - 1 then Some (Inr (EOVERFLOW, dest, idx))
             else
               (case wr dest idx (ucast (0xD800 OR drop_bit 10 (c - 0x10000))) of
                  Inl e \<Rightarrow> Some (Inl e)
                | Inr dest1 \<Rightarrow>
                    (case wr dest1 (idx + 1) (ucast (0xDC00 OR ((c - 0x10000) AND 0x3FF))) of
                       Inl e \<Rightarrow> Some (Inl e)
                     | Inr dest2 \<Rightarrow>
                         if idx + 2 \<ge> dlen - 1 then Some (Inr (EOVERFLOW, dest2, idx + 2))
                         else str_to_utf16_loop no_limit U dest2 dlen src offset' (idx + 2))))
          else
            (case wr dest idx (ucast c) of
               Inl e \<Rightarrow> Some (Inl e)
             | Inr dest1 \<Rightarrow>
                 if idx + 1 \<ge> dlen - 1 then Some (Inr (EOVERFLOW, dest1, idx + 1))
                 else str_to_utf16_loop no_limit U dest1 dlen src offset' (idx + 1)))"

definition str_to_utf16 ::
  "nat \<Rightarrow> char32_t \<Rightarrow> u16 list \<Rightarrow> nat \<Rightarrow> u8 list \<Rightarrow> (fault + (errno \<times> u16 list)) option" where
  "str_to_utf16 no_limit U dest dlen src =
     (if \<not> dlen > 0 then Some (Inl AssertFail)
      else case str_to_utf16_loop no_limit U dest dlen src 0 0 of
             None \<Rightarrow> None
           | Some (Inl e) \<Rightarrow> Some (Inl e)
           | Some (Inr (rc, dest1, idx)) \<Rightarrow>
               (case wr dest1 idx 0 of
                  Inl e \<Rightarrow> Some (Inl e)
                | Inr dest2 \<Rightarrow> Some (Inr (rc, dest2))))"

section \<open>Strings as sequences of characters\<close>

text \<open>
  The characters of the bytes from \<open>offset\<close> up to \<open>sz\<close>, as \<^verbatim>\<open>_str_decode\<close>
  returns them one after the other from a clean state; \<open>None\<close> when a call returns
  \<^verbatim>\<open>CHAR_INVALID\<close>, leaves a character incomplete, or faults: the bytes are well-formed
  when the result is not \<open>None\<close>.  (The decoder always moves the offset here; the test
  \<open>offset < offset'\<close> makes this visible to the definition.)
\<close>

function str_scalars :: "u8 list \<Rightarrow> nat \<Rightarrow> nat \<Rightarrow> char32_t list option" where
  "str_scalars s offset sz =
     (if sz \<le> offset then Some []
      else
        (case u_str_decode s offset sz \<lparr>state = 0\<rparr> of
           Inl e \<Rightarrow> None
         | Inr (ch, offset', mb) \<Rightarrow>
             if ch \<noteq> CHAR_INVALID \<and> state mb = 0 \<and> offset < offset'
             then (case str_scalars s offset' sz of None \<Rightarrow> None | Some cs \<Rightarrow> Some (ch # cs))
             else None))"
  by pat_completeness auto
termination
  by (relation "measure (\<lambda>(s, offset, sz). sz - offset)") auto

declare str_scalars.simps [simp del]

text \<open>The characters of a string that ends with a terminator.\<close>

definition string_scalars :: "u8 list \<Rightarrow> char32_t list option" where
  "string_scalars s = (case u_str_size s of Inl e \<Rightarrow> None | Inr n \<Rightarrow> str_scalars s 0 n)"

text \<open>
  The lexicographic comparison of two sequences of characters, with the results of
  \<^verbatim>\<open>str_cmp\<close>: written from the words of the specification, to be compared with
  \<^verbatim>\<open>str_cmp\<close>.
\<close>

fun scalars_cmp :: "char32_t list \<Rightarrow> char32_t list \<Rightarrow> int" where
  "scalars_cmp [] [] = 0"
| "scalars_cmp [] (y # ys) = -1"
| "scalars_cmp (x # xs) [] = 1"
| "scalars_cmp (x # xs) (y # ys) = (if x = y then scalars_cmp xs ys else if x < y then -1 else 1)"

text \<open>
  Decoding one byte at a time: each byte is given to \<^verbatim>\<open>_str_decode\<close> alone, as a
  buffer of size 1, with the state kept between the calls.  A byte that a call does not
  consume (it ended a pending sequence with \<^verbatim>\<open>CHAR_INVALID\<close>) is given again.  The
  result is the sequence of the characters returned, \<^verbatim>\<open>CHAR_INVALID\<close> among them, and
  the final state.
\<close>

definition emit :: "char32_t \<Rightarrow> fault + (char32_t list \<times> mbstate_t) \<Rightarrow> fault + (char32_t list \<times> mbstate_t)" where
  "emit c r = (case r of Inl e \<Rightarrow> Inl e | Inr (cs, mb) \<Rightarrow> Inr (c # cs, mb))"

fun decode_bytewise :: "mbstate_t \<Rightarrow> u8 list \<Rightarrow> fault + (char32_t list \<times> mbstate_t)" where
  "decode_bytewise mb [] = Inr ([], mb)"
| "decode_bytewise mb (b # bs) =
     (case u_str_decode [b] 0 1 mb of
        Inl e \<Rightarrow> Inl e
      | Inr (ch, offset', mb') \<Rightarrow>
          if ch = CHAR_INVALID \<and> offset' = 0 then
            (case u_str_decode [b] 0 1 mb' of
               Inl e \<Rightarrow> Inl e
             | Inr (ch2, offset2, mb2) \<Rightarrow>
                 if state mb2 \<noteq> 0 then emit ch (decode_bytewise mb2 bs)
                 else emit ch (emit ch2 (decode_bytewise mb2 bs)))
          else if state mb' \<noteq> 0 then decode_bytewise mb' bs
          else emit ch (decode_bytewise mb' bs))"

text \<open>
  Decoding with the whole buffer given to every call: the calls go on until the offset
  is the size or a character is left incomplete at the end.
\<close>

function decode_whole :: "u8 list \<Rightarrow> nat \<Rightarrow> nat \<Rightarrow> mbstate_t \<Rightarrow> fault + (char32_t list \<times> mbstate_t)" where
  "decode_whole s offset sz mb =
     (if sz \<le> offset then Inr ([], mb)
      else
        (case u_str_decode s offset sz mb of
           Inl e \<Rightarrow> Inl e
         | Inr (ch, offset', mb') \<Rightarrow>
             if ch \<noteq> CHAR_INVALID \<and> state mb' \<noteq> 0 then Inr ([], mb')
             else if offset < offset' then emit ch (decode_whole s offset' sz mb')
             else Inr ([ch], mb')))"
  by pat_completeness auto
termination
  by (relation "measure (\<lambda>(s, offset, sz, mb). sz - offset)") auto

declare decode_whole.simps [simp del]

section \<open>Bytes and characters as numbers\<close>

text \<open>
  The bit operations of the source on bytes and characters, read as arithmetic on the
  unsigned values.
\<close>

lemma unat_u8_less: "unat (b :: u8) < 256"
  using unsigned_less [of b, where 'a=nat] by simp

lemma or_push_nat: "(m::nat) < 2^n \<Longrightarrow> push_bit n a OR m = a * 2^n + m"
proof -
  assume "m < 2 ^ n"
  then have m: "take_bit n m = m" by (simp add: take_bit_nat_eq_self)
  have "push_bit n a + take_bit n m = push_bit n a OR take_bit n m"
    by (rule disjunctive_add) (auto simp: bit_simps)
  then show ?thesis by (simp add: m push_bit_eq_mult)
qed

lemma and_mask_nat: "(n::nat) AND mask k = n mod 2 ^ k"
  by (simp add: take_bit_eq_mask [symmetric] take_bit_eq_mod)

lemma and_nat_numerals:
  "(n::nat) AND 63 = n mod 64" "(n::nat) AND 31 = n mod 32"
  "(n::nat) AND 15 = n mod 16" "(n::nat) AND 7 = n mod 8"
  using and_mask_nat [of n 6] and_mask_nat [of n 5] and_mask_nat [of n 4] and_mask_nat [of n 3]
  by (simp_all add: mask_eq_exp_minus_1)

lemma LO_MASK_32_mask: "LO_MASK_32 n = mask n"
  by (simp add: LO_MASK_32_def mask_eq_exp_minus_1)

lemma LO_MASK_32_vals: "LO_MASK_32 6 = 63" "LO_MASK_32 5 = 31" "LO_MASK_32 4 = 15" "LO_MASK_32 3 = 7"
  by (simp_all add: LO_MASK_32_def)

lemma HI_MASK_8_vals: "HI_MASK_8 2 = 0xFFFFFFC0" "HI_MASK_8 3 = 0xFFFFFFE0" "HI_MASK_8 4 = 0xFFFFFFF0"
  by (simp_all add: HI_MASK_8_def LO_MASK_8_def)

lemma unat_and32: "unat ((c::32 word) AND 63) = unat c mod 64"
  "unat ((c::32 word) AND 31) = unat c mod 32"
  "unat ((c::32 word) AND 15) = unat c mod 16"
  "unat ((c::32 word) AND 7) = unat c mod 8"
  by (simp_all add: unsigned_and_eq and_nat_numerals)

lemma unat_and8: "unat ((c::8 word) AND 63) = unat c mod 64"
  "unat ((c::8 word) AND 31) = unat c mod 32"
  "unat ((c::8 word) AND 15) = unat c mod 16"
  "unat ((c::8 word) AND 7) = unat c mod 8"
  by (simp_all add: unsigned_and_eq and_nat_numerals)

lemma enc_cont_byte: "unat (ucast (0x80 OR ((c::32 word) AND LO_MASK_32 CONT_BITS)) :: u8) = 128 + unat c mod 64"
proof -
  have "(128::nat) OR unat c mod 64 = 128 + unat c mod 64"
    using or_push_nat [of "unat c mod 64" 7 1] by simp
  then show ?thesis
    by (simp add: CONT_BITS_def LO_MASK_32_vals unsigned_ucast_eq unsigned_or_eq unat_and32 take_bit_eq_mod)
qed

lemma enc_lead2: "unat (ucast (((c::32 word) AND LO_MASK_32 5) OR HI_MASK_8 2) :: u8) = 192 + unat c mod 32"
proof -
  have "push_bit 6 (3::nat) OR unat c mod 32 = 3 * 2 ^ 6 + unat c mod 32"
    by (rule or_push_nat) (simp add: less_trans [OF mod_less_divisor])
  then have "unat c mod 32 OR (192::nat) = 192 + unat c mod 32"
    by (simp add: or.commute)
  then show ?thesis
    by (simp add: LO_MASK_32_vals HI_MASK_8_vals unsigned_ucast_eq unsigned_or_eq unat_and32 take_bit_eq_mod)
qed

lemma enc_lead3: "unat (ucast (((c::32 word) AND LO_MASK_32 4) OR HI_MASK_8 3) :: u8) = 224 + unat c mod 16"
proof -
  have "push_bit 5 (7::nat) OR unat c mod 16 = 7 * 2 ^ 5 + unat c mod 16"
    by (rule or_push_nat) (simp add: less_trans [OF mod_less_divisor])
  then have "unat c mod 16 OR (224::nat) = 224 + unat c mod 16"
    by (simp add: or.commute)
  then show ?thesis
    by (simp add: LO_MASK_32_vals HI_MASK_8_vals unsigned_ucast_eq unsigned_or_eq unat_and32 take_bit_eq_mod)
qed

lemma enc_lead4: "unat (ucast (((c::32 word) AND LO_MASK_32 3) OR HI_MASK_8 4) :: u8) = 240 + unat c mod 8"
proof -
  have "push_bit 4 (15::nat) OR unat c mod 8 = 15 * 2 ^ 4 + unat c mod 8"
    by (rule or_push_nat) (simp add: less_trans [OF mod_less_divisor])
  then have "unat c mod 8 OR (240::nat) = 240 + unat c mod 8"
    by (simp add: or.commute)
  then show ?thesis
    by (simp add: LO_MASK_32_vals HI_MASK_8_vals unsigned_ucast_eq unsigned_or_eq unat_and32 take_bit_eq_mod)
qed

lemma unat_drop6: "unat (drop_bit CONT_BITS (c::32 word)) = unat c div 64"
  unfolding CONT_BITS_def unat_drop_bit_eq by (simp add: drop_bit_eq_div)

lemma unat_ucast_and8:
  "unat (ucast ((b::u8) AND 63) :: 32 word) = unat b mod 64"
  "unat (ucast ((b::u8) AND 31) :: 32 word) = unat b mod 32"
  "unat (ucast ((b::u8) AND 15) :: 32 word) = unat b mod 16"
  "unat (ucast ((b::u8) AND 7) :: 32 word) = unat b mod 8"
  unfolding unsigned_ucast_eq unat_and8 by (simp_all add: take_bit_eq_mod)

lemma unat_push32: "unat w * 2 ^ n < 2 ^ 32 \<Longrightarrow> unat (push_bit n (w::32 word)) = unat w * 2 ^ n"
  unfolding unsigned_push_bit_eq by (simp add: take_bit_eq_mod push_bit_eq_mult)

lemma dec2_unat:
  "unat (push_bit 6 (ucast (b AND UTF8_MASK_INITIAL2)) OR ucast (b1 AND UTF8_MASK_CONT) :: 32 word)
     = (unat b mod 32) * 64 + unat b1 mod 64"
proof -
  let ?x = "unat b mod 32" and ?y = "unat b1 mod 64"
  have x: "?x < 32" by simp
  have 1: "push_bit 6 ?x OR ?y = ?x * 2 ^ 6 + ?y"
    by (rule or_push_nat) simp
  have A: "unat (push_bit 6 (ucast (b AND 31)) :: 32 word) = ?x * 64"
    using unat_push32 [of "ucast (b AND 31)" 6] x by (simp add: unat_ucast_and8)
  show ?thesis
    unfolding UTF8_MASK_INITIAL2_def UTF8_MASK_CONT_def unsigned_or_eq A unat_ucast_and8
    using 1 by (simp add: push_bit_eq_mult)
qed

lemma dec3_unat:
  "unat (push_bit 12 (ucast (b AND UTF8_MASK_INITIAL3)) OR push_bit 6 (ucast (b1 AND UTF8_MASK_CONT))
           OR ucast (b2 AND UTF8_MASK_CONT) :: 32 word)
     = (unat b mod 16) * 4096 + (unat b1 mod 64) * 64 + unat b2 mod 64"
proof -
  let ?x = "unat b mod 16" and ?y = "unat b1 mod 64" and ?z = "unat b2 mod 64"
  have 1: "push_bit 6 ?y OR ?z = ?y * 2 ^ 6 + ?z"
    by (rule or_push_nat) simp
  have x: "?x < 16" and y: "?y < 64" and z: "?z < 64" by simp_all
  have "?y * 64 + ?z < 2 ^ 12" using y z by simp
  then have 2: "push_bit 12 ?x OR (?y * 64 + ?z) = ?x * 2 ^ 12 + (?y * 64 + ?z)"
    by (rule or_push_nat)
  have A: "unat (push_bit 12 (ucast (b AND 15)) :: 32 word) = ?x * 4096"
    using unat_push32 [of "ucast (b AND 15)" 12] x by (simp add: unat_ucast_and8)
  have B: "unat (push_bit 6 (ucast (b1 AND 63)) :: 32 word) = ?y * 64"
    using unat_push32 [of "ucast (b1 AND 63)" 6] y by (simp add: unat_ucast_and8)
  show ?thesis
    unfolding UTF8_MASK_INITIAL3_def UTF8_MASK_CONT_def unsigned_or_eq A B unat_ucast_and8
    using 1 2 by (simp add: push_bit_eq_mult or.assoc)
qed

lemma dec4_unat:
  "unat (push_bit 18 (ucast (b AND UTF8_MASK_INITIAL4)) OR push_bit 12 (ucast (b1 AND UTF8_MASK_CONT))
           OR push_bit 6 (ucast (b2 AND UTF8_MASK_CONT)) OR ucast (b3 AND UTF8_MASK_CONT) :: 32 word)
     = (unat b mod 8) * 262144 + (unat b1 mod 64) * 4096 + (unat b2 mod 64) * 64 + unat b3 mod 64"
proof -
  let ?w = "unat b mod 8" and ?x = "unat b1 mod 64" and ?y = "unat b2 mod 64" and ?z = "unat b3 mod 64"
  have 1: "push_bit 6 ?y OR ?z = ?y * 2 ^ 6 + ?z"
    by (rule or_push_nat) simp
  have w: "?w < 8" and x: "?x < 64" and y: "?y < 64" and z: "?z < 64" by simp_all
  have "?y * 64 + ?z < 2 ^ 12" using y z by simp
  then have 2: "push_bit 12 ?x OR (?y * 64 + ?z) = ?x * 2 ^ 12 + (?y * 64 + ?z)"
    by (rule or_push_nat)
  have "?x * 4096 + (?y * 64 + ?z) < 2 ^ 18" using x y z by simp
  then have 3: "push_bit 18 ?w OR (?x * 4096 + (?y * 64 + ?z)) = ?w * 2 ^ 18 + (?x * 4096 + (?y * 64 + ?z))"
    by (rule or_push_nat)
  have A: "unat (push_bit 18 (ucast (b AND 7)) :: 32 word) = ?w * 262144"
    using unat_push32 [of "ucast (b AND 7)" 18] w by (simp add: unat_ucast_and8)
  have B: "unat (push_bit 12 (ucast (b1 AND 63)) :: 32 word) = ?x * 4096"
    using unat_push32 [of "ucast (b1 AND 63)" 12] x by (simp add: unat_ucast_and8)
  have C: "unat (push_bit 6 (ucast (b2 AND 63)) :: 32 word) = ?y * 64"
    using unat_push32 [of "ucast (b2 AND 63)" 6] y by (simp add: unat_ucast_and8)
  show ?thesis
    unfolding UTF8_MASK_INITIAL4_def UTF8_MASK_CONT_def unsigned_or_eq A B C unat_ucast_and8
    using 1 2 3 by (simp add: push_bit_eq_mult or.assoc)
qed


lemma and_not_mask_zero: "(w::'a::len word) AND NOT (mask n) = 0 \<longleftrightarrow> w AND mask n = w"
  by (auto simp add: bit_eq_iff bit_simps)

lemma uint_less_iff: "uint (w::'a::len word) < 2 ^ n \<longleftrightarrow> unat w < 2 ^ n"
proof -
  have "uint w = int (unat w)" by (rule uint_nat)
  moreover have "(int (unat w) < 2 ^ n) = (unat w < 2 ^ n)"
    using of_nat_less_iff [of "unat w" "2 ^ n", where 'a=int] by simp
  ultimately show ?thesis by (simp only:)
qed

lemma and_not_mask_zero_unat: "(w::'a::len word) AND NOT (mask n) = 0 \<longleftrightarrow> unat w < 2 ^ n"
  unfolding and_not_mask_zero mask_eq_iff by (rule uint_less_iff)

lemma u_char_continuation_bytes_unat:
  "u_char_continuation_bytes c =
     (if unat c < 128 then 0 else if unat c < 2048 then 1
      else if unat c < 65536 then 2 else if unat c < 2097152 then 3 else -1)"
  unfolding u_char_continuation_bytes_def LO_MASK_32_mask and_not_mask_zero_unat by simp


lemma and_slice_nat: "(n::nat) AND push_bit k (mask j) = (n div 2 ^ k mod 2 ^ j) * 2 ^ k"
proof -
  have "n AND push_bit k (mask j) = push_bit k (take_bit j (drop_bit k n))"
    by (auto simp add: bit_eq_iff bit_simps)
  then show ?thesis
    by (simp add: push_bit_eq_mult take_bit_eq_mod drop_bit_eq_div)
qed

lemma and_nat_slices:
  "(n::nat) AND 192 = (n div 64 mod 4) * 64"
  "(n::nat) AND 224 = (n div 32 mod 8) * 32"
  "(n::nat) AND 240 = (n div 16 mod 16) * 16"
  "(n::nat) AND 248 = (n div 8 mod 32) * 8"
  "(n::nat) AND 30 = (n div 2 mod 16) * 2"
  "(n::nat) AND 32 = (n div 32 mod 2) * 32"
  "(n::nat) AND 48 = (n div 16 mod 4) * 16"
  using and_slice_nat [of n 6 2] and_slice_nat [of n 5 3] and_slice_nat [of n 4 4]
    and_slice_nat [of n 3 5] and_slice_nat [of n 1 4] and_slice_nat [of n 5 1]
    and_slice_nat [of n 4 2]
  by (simp_all add: mask_eq_exp_minus_1 push_bit_eq_mult)

lemma byte_class:
  "u_is_ascii b \<longleftrightarrow> unat b < 128"
  "u_is_continuation b \<longleftrightarrow> 128 \<le> unat b \<and> unat b < 192"
  "u_is_2_byte b \<longleftrightarrow> 192 \<le> unat b \<and> unat b < 224"
  "u_is_3_byte b \<longleftrightarrow> 224 \<le> unat b \<and> unat b < 240"
  "u_is_4_byte b \<longleftrightarrow> 240 \<le> unat b \<and> unat b < 248"
  using unat_u8_less [of b]
  unfolding u_is_ascii_def u_is_continuation_def u_is_2_byte_def u_is_3_byte_def u_is_4_byte_def
    word_unat_eq_iff word_less_nat_alt unsigned_and_eq
  by (simp_all add: and_nat_slices) arith+

lemma chr_encode_overflow: "sz \<le> offset \<Longrightarrow> chr_encode ch str offset sz = Inr (EOVERFLOW, str, offset)"
  by (simp add: chr_encode_def)

lemma chr_encode_ascii:
  "offset < sz \<Longrightarrow> sz \<le> length str \<Longrightarrow> unat ch < 128 \<Longrightarrow>
   chr_encode ch str offset sz = Inr (EOK, str[offset := ucast ch], offset + 1)"
  by (simp add: chr_encode_def wr_def word_less_nat_alt)

lemma chr_encode_invalid:
  "offset < sz \<Longrightarrow> 1114111 < unat ch \<Longrightarrow> chr_encode ch str offset sz = Inr (EINVAL, str, offset)"
  by (simp add: chr_encode_def chr_check_def word_less_nat_alt word_le_nat_alt)

lemma chr_encode_loop_unroll:
  "chr_encode_loop 1 ch str offset =
     (case wr str (offset + 1) (ucast (0x80 OR (ch AND LO_MASK_32 CONT_BITS))) of
        Inl e \<Rightarrow> Inl e | Inr s1 \<Rightarrow> Inr (s1, drop_bit CONT_BITS ch))"
  "chr_encode_loop 2 ch str offset =
     (case wr str (offset + 2) (ucast (0x80 OR (ch AND LO_MASK_32 CONT_BITS))) of
        Inl e \<Rightarrow> Inl e | Inr s1 \<Rightarrow> chr_encode_loop 1 (drop_bit CONT_BITS ch) s1 offset)"
  "chr_encode_loop 3 ch str offset =
     (case wr str (offset + 3) (ucast (0x80 OR (ch AND LO_MASK_32 CONT_BITS))) of
        Inl e \<Rightarrow> Inl e | Inr s1 \<Rightarrow> chr_encode_loop 2 (drop_bit CONT_BITS ch) s1 offset)"
  by (simp_all add: numeral_2_eq_2 numeral_3_eq_3 split: sum.splits)

lemma chr_encode_2:
  assumes "128 \<le> unat ch" "unat ch < 2048" "offset < sz"
  shows "chr_encode ch str offset sz =
    (if sz \<le> offset + 1 then Inr (EOVERFLOW, str, offset)
     else case wr str (offset + 1) (ucast (0x80 OR (ch AND LO_MASK_32 CONT_BITS))) of
            Inl e \<Rightarrow> Inl e
          | Inr str1 \<Rightarrow>
              (case wr str1 offset (ucast ((drop_bit CONT_BITS ch AND LO_MASK_32 5) OR HI_MASK_8 2)) of
                 Inl e \<Rightarrow> Inl e
               | Inr str2 \<Rightarrow> Inr (EOK, str2, offset + 2)))"
  using assms
  by (simp add: chr_encode_def chr_check_def word_less_nat_alt word_le_nat_alt
      u_char_continuation_bytes_unat chr_encode_loop_unroll split: sum.splits)

lemma chr_encode_3:
  assumes "2048 \<le> unat ch" "unat ch < 65536" "offset < sz"
  shows "chr_encode ch str offset sz =
    (if sz \<le> offset + 2 then Inr (EOVERFLOW, str, offset)
     else case wr str (offset + 2) (ucast (0x80 OR (ch AND LO_MASK_32 CONT_BITS))) of
            Inl e \<Rightarrow> Inl e
          | Inr str1 \<Rightarrow>
         (case wr str1 (offset + 1) (ucast (0x80 OR (drop_bit CONT_BITS ch AND LO_MASK_32 CONT_BITS))) of
            Inl e \<Rightarrow> Inl e
          | Inr str2 \<Rightarrow>
              (case wr str2 offset (ucast ((drop_bit CONT_BITS (drop_bit CONT_BITS ch) AND LO_MASK_32 4) OR HI_MASK_8 3)) of
                 Inl e \<Rightarrow> Inl e
               | Inr str3 \<Rightarrow> Inr (EOK, str3, offset + 3))))"
  using assms
  by (simp add: chr_encode_def chr_check_def word_less_nat_alt word_le_nat_alt
      u_char_continuation_bytes_unat chr_encode_loop_unroll split: sum.splits)

lemma chr_encode_4:
  assumes "65536 \<le> unat ch" "unat ch \<le> 1114111" "offset < sz"
  shows "chr_encode ch str offset sz =
    (if sz \<le> offset + 3 then Inr (EOVERFLOW, str, offset)
     else case wr str (offset + 3) (ucast (0x80 OR (ch AND LO_MASK_32 CONT_BITS))) of
            Inl e \<Rightarrow> Inl e
          | Inr str1 \<Rightarrow>
         (case wr str1 (offset + 2) (ucast (0x80 OR (drop_bit CONT_BITS ch AND LO_MASK_32 CONT_BITS))) of
            Inl e \<Rightarrow> Inl e
          | Inr str2 \<Rightarrow>
         (case wr str2 (offset + 1) (ucast (0x80 OR (drop_bit CONT_BITS (drop_bit CONT_BITS ch) AND LO_MASK_32 CONT_BITS))) of
            Inl e \<Rightarrow> Inl e
          | Inr str3 \<Rightarrow>
              (case wr str3 offset (ucast ((drop_bit CONT_BITS (drop_bit CONT_BITS (drop_bit CONT_BITS ch)) AND LO_MASK_32 3) OR HI_MASK_8 4)) of
                 Inl e \<Rightarrow> Inl e
               | Inr str4 \<Rightarrow> Inr (EOK, str4, offset + 4)))))"
  using assms
  by (simp add: chr_encode_def chr_check_def word_less_nat_alt word_le_nat_alt
      u_char_continuation_bytes_unat chr_encode_loop_unroll split: sum.splits)



lemma and_hi_zero:
  "(ch::32 word) AND 0xFFFFF800 = 0 \<longleftrightarrow> unat ch < 2048"
  "(ch::32 word) AND 0xFFFF0000 = 0 \<longleftrightarrow> unat ch < 65536"
proof -
  have "(0xFFFFF800::32 word) = NOT (mask 11)" "(0xFFFF0000::32 word) = NOT (mask 16)"
    by (simp_all add: mask_eq_exp_minus_1)
  then show "ch AND 0xFFFFF800 = 0 \<longleftrightarrow> unat ch < 2048"
    "ch AND 0xFFFF0000 = 0 \<longleftrightarrow> unat ch < 65536"
    using and_not_mask_zero_unat [of ch 11] and_not_mask_zero_unat [of ch 16]
    by simp_all
qed

lemma and_1E_zero: "(b::u8) AND 0x1E = 0 \<longleftrightarrow> unat b div 2 mod 16 = 0"
  unfolding word_unat_eq_iff unsigned_and_eq by (simp add: and_nat_slices)

lemma rd_in: "i < length s \<Longrightarrow> rd s i = Inr (s ! i)"
  by (simp add: rd_def)

lemma cont_at_in: "i < length s \<Longrightarrow> cont_at s i = Inr (u_is_continuation (s ! i))"
  by (simp add: cont_at_def rd_def)

lemma u_str_decode_clean:
  assumes "offset < sz" "state mb = 0"
  shows "u_str_decode s offset sz mb =
        (case rd s offset of
           Inl e \<Rightarrow> Inl e
         | Inr b \<Rightarrow>
             if u_is_ascii b then Inr (ucast b, offset + 1, mb)
             else if u_is_continuation b then Inr (CHAR_INVALID, offset + 1, mb)
             else if u_is_2_byte b then
               (if b AND 0x1E = 0 then Inr (CHAR_INVALID, offset + 1, mb)
                else case fast2 s (offset + 1) sz of
                       Inl e \<Rightarrow> Inl e
                     | Inr True \<Rightarrow>
                         Inr (push_bit 6 (ucast (b AND UTF8_MASK_INITIAL2))
                                OR ucast (s ! (offset + 1) AND UTF8_MASK_CONT),
                              offset + 2, mb)
                     | Inr False \<Rightarrow>
                         u_str_decode_loop s (offset + 1) sz (mb\<lparr>state := ucast b XOR 0x00C0\<rparr>))
             else if u_is_3_byte b then
               (case fast3 s (offset + 1) sz of
                  Inl e \<Rightarrow> Inl e
                | Inr True \<Rightarrow>
                    let ch = push_bit 12 (ucast (b AND UTF8_MASK_INITIAL3))
                               OR push_bit 6 (ucast (s ! (offset + 1) AND UTF8_MASK_CONT))
                               OR ucast (s ! (offset + 2) AND UTF8_MASK_CONT) :: char32_t
                    in if ch AND 0xFFFFF800 = 0 then Inr (CHAR_INVALID, offset + 3, mb)
                       else if ch \<ge> 0xD800 \<and> ch < 0xE000 then Inr (CHAR_INVALID, offset + 3, mb)
                       else Inr (ch, offset + 3, mb)
                | Inr False \<Rightarrow>
                    u_str_decode_loop s (offset + 1) sz (mb\<lparr>state := ucast b XOR 0xFCE0\<rparr>))
             else if u_is_4_byte b then
               (case fast4 s (offset + 1) sz of
                  Inl e \<Rightarrow> Inl e
                | Inr True \<Rightarrow>
                    let ch = push_bit 18 (ucast (b AND UTF8_MASK_INITIAL4))
                               OR push_bit 12 (ucast (s ! (offset + 1) AND UTF8_MASK_CONT))
                               OR push_bit 6 (ucast (s ! (offset + 2) AND UTF8_MASK_CONT))
                               OR ucast (s ! (offset + 3) AND UTF8_MASK_CONT) :: char32_t
                    in if ch AND 0xFFFF0000 = 0 then Inr (CHAR_INVALID, offset + 4, mb)
                       else if ch \<ge> 0x110000 then Inr (CHAR_INVALID, offset + 4, mb)
                       else Inr (ch, offset + 4, mb)
                | Inr False \<Rightarrow>
                    u_str_decode_loop s (offset + 1) sz (mb\<lparr>state := ucast b XOR 0xFF00\<rparr>))
             else Inr (CHAR_INVALID, offset + 1, mb))"
proof -
  have eqs: "offset + 1 + 1 = offset + 2" "offset + 1 + 2 = offset + 3" "offset + 1 + 3 = offset + 4"
    by simp_all
  have c: "\<not> \<not> offset \<le> sz" "offset \<noteq> sz" using assms(1) by simp_all
  show ?thesis
    unfolding u_str_decode_def Let_def eqs if_not_P [OF c(1)] if_not_P [OF c(2)] if_P [OF assms(2)]
    by (rule refl)
qed

lemma fast_in:
  "offset < sz \<Longrightarrow> sz \<le> length s \<Longrightarrow> fast2 s offset sz = Inr (u_is_continuation (s ! offset))"
  "offset + 1 < sz \<Longrightarrow> sz \<le> length s \<Longrightarrow>
     fast3 s offset sz = Inr (u_is_continuation (s ! offset) \<and> u_is_continuation (s ! (offset + 1)))"
  "offset + 2 < sz \<Longrightarrow> sz \<le> length s \<Longrightarrow>
     fast4 s offset sz = Inr (u_is_continuation (s ! offset) \<and> u_is_continuation (s ! (offset + 1))
        \<and> u_is_continuation (s ! (offset + 2)))"
  by (simp_all add: fast2_def fast3_def fast4_def and_then_def cont_at_in)

lemma u_str_decode_ascii:
  assumes "offset < sz" "sz \<le> length s" "state mb = 0" "unat (s ! offset) < 128"
  shows "u_str_decode s offset sz mb = Inr (ucast (s ! offset), offset + 1, mb)"
  using assms by (simp add: u_str_decode_clean rd_in byte_class)

lemma u_str_decode_2:
  assumes "offset + 1 < sz" "sz \<le> length s" "state mb = 0"
    "194 \<le> unat (s ! offset)" "unat (s ! offset) < 224"
    "u_is_continuation (s ! (offset + 1))"
  shows "u_str_decode s offset sz mb =
    Inr (push_bit 6 (ucast (s ! offset AND UTF8_MASK_INITIAL2))
           OR ucast (s ! (offset + 1) AND UTF8_MASK_CONT), offset + 2, mb)"
proof -
  have "unat (s ! offset) div 2 mod 16 \<noteq> 0" using assms(4,5) by arith
  moreover have "fast2 s (offset + 1) sz = Inr True"
    using assms by (simp add: fast_in)
  ultimately show ?thesis using assms(1-5)
    by (simp add: u_str_decode_clean rd_in byte_class and_1E_zero)
qed

lemma u_str_decode_3:
  assumes "offset + 2 < sz" "sz \<le> length s" "state mb = 0"
    "224 \<le> unat (s ! offset)" "unat (s ! offset) < 240"
    "u_is_continuation (s ! (offset + 1))" "u_is_continuation (s ! (offset + 2))"
    "ch = push_bit 12 (ucast (s ! offset AND UTF8_MASK_INITIAL3))
           OR push_bit 6 (ucast (s ! (offset + 1) AND UTF8_MASK_CONT))
           OR ucast (s ! (offset + 2) AND UTF8_MASK_CONT)"
  shows "u_str_decode s offset sz mb =
    Inr (if unat ch < 2048 \<or> (55296 \<le> unat ch \<and> unat ch < 57344) then CHAR_INVALID else ch,
         offset + 3, mb)"
proof -
  have e: "offset + 1 + 1 = offset + 2" by simp
  have "offset + 1 + 1 < sz" using assms(1) by simp
  from fast_in(2) [OF this assms(2)] have "fast3 s (offset + 1) sz = Inr True"
    unfolding e by (simp only: assms(6,7) simp_thms)
  then show ?thesis using assms(1-5) unfolding assms(8)
    by (simp add: u_str_decode_clean rd_in byte_class and_hi_zero word_le_nat_alt
        word_less_nat_alt Let_def)
qed

lemma u_str_decode_4:
  assumes "offset + 3 < sz" "sz \<le> length s" "state mb = 0"
    "240 \<le> unat (s ! offset)" "unat (s ! offset) < 248"
    "u_is_continuation (s ! (offset + 1))" "u_is_continuation (s ! (offset + 2))"
    "u_is_continuation (s ! (offset + 3))"
    "ch = push_bit 18 (ucast (s ! offset AND UTF8_MASK_INITIAL4))
           OR push_bit 12 (ucast (s ! (offset + 1) AND UTF8_MASK_CONT))
           OR push_bit 6 (ucast (s ! (offset + 2) AND UTF8_MASK_CONT))
           OR ucast (s ! (offset + 3) AND UTF8_MASK_CONT)"
  shows "u_str_decode s offset sz mb =
    Inr (if unat ch < 65536 \<or> 1114112 \<le> unat ch then CHAR_INVALID else ch, offset + 4, mb)"
proof -
  have e: "offset + 1 + 1 = offset + 2" "offset + 1 + 2 = offset + 3" by simp_all
  have "offset + 1 + 2 < sz" using assms(1) by simp
  from fast_in(3) [OF this assms(2)] have "fast4 s (offset + 1) sz = Inr True"
    unfolding e by (simp only: assms(6,7,8) simp_thms)
  then show ?thesis using assms(1-5) unfolding assms(9)
    by (simp add: u_str_decode_clean rd_in byte_class and_hi_zero word_le_nat_alt
        word_less_nat_alt Let_def)
qed

lemma surrogate_lead:
  assumes "55296 \<le> unat ch" "unat ch \<le> 57343"
  shows "ucast ((drop_bit CONT_BITS (drop_bit CONT_BITS ch) AND LO_MASK_32 4) OR HI_MASK_8 3) = (0xED :: u8)"
proof -
  have "unat ch div 4096 = 13"
    by (rule div_nat_eqI) (use assms in simp_all)
  then have "unat ch div 64 div 64 mod 16 = 13"
    by (simp add: div_mult2_eq [symmetric])
  then show ?thesis
    unfolding word_unat_eq_iff enc_lead3 unat_drop6 by simp
qed

lemma cmp_unat:
  "(ch::char32_t) > 0x10FFFF \<longleftrightarrow> 1114111 < unat ch"
  "0xD800 \<le> (ch::char32_t) \<longleftrightarrow> 55296 \<le> unat ch"
  "(ch::char32_t) \<le> 0xDFFF \<longleftrightarrow> unat ch \<le> 57343"
  by (simp_all add: word_less_nat_alt word_le_nat_alt)

section \<open>The encoder writes nothing when it fails\<close>

text \<open>
  C7.  \<^verbatim>\<open>chr_encode\<close> on a buffer that has the \<open>sz\<close> bytes it is given returns (it
  does not fault), and: when the result is not \<open>EOK\<close> (that is \<open>EOVERFLOW\<close> or
  \<open>EINVAL\<close>) the buffer and the offset are the ones of the call; when it is \<open>EOK\<close> the
  offset has moved forward by 1 to 4 bytes, stays within \<open>sz\<close>, and every byte outside
  of the ones between the old and the new offset is unchanged.
\<close>

theorem chr_encode_atomic:
  assumes len: "sz \<le> length str"
  shows "\<exists>rc str' offset'. chr_encode ch str offset sz = Inr (rc, str', offset') \<and>
        (rc \<noteq> EOK \<longrightarrow> str' = str \<and> offset' = offset) \<and>
        (rc = EOK \<longrightarrow> offset < offset' \<and> offset' \<le> offset + 4 \<and> offset' \<le> sz \<and>
           length str' = length str \<and>
           (\<forall>i. i < offset \<or> offset' \<le> i \<longrightarrow> str' ! i = str ! i))"
proof (cases "sz \<le> offset")
  case True
  then show ?thesis by (simp add: chr_encode_overflow)
next
  case False
  then have off: "offset < sz" by simp
  consider (a) "unat ch < 128" | (b) "128 \<le> unat ch" "unat ch < 2048"
    | (c) "2048 \<le> unat ch" "unat ch < 65536" | (d) "65536 \<le> unat ch" "unat ch \<le> 1114111"
    | (e) "1114111 < unat ch" by linarith
  then show ?thesis
  proof cases
    case a
    with off len show ?thesis by (simp add: chr_encode_ascii)
  next
    case b
    with off len show ?thesis by (simp add: chr_encode_2 wr_def)
  next
    case c
    with off len show ?thesis by (simp add: chr_encode_3 wr_def)
  next
    case d
    with off len show ?thesis by (simp add: chr_encode_4 wr_def)
  next
    case e
    with off show ?thesis by (simp add: chr_encode_invalid)
  qed
qed

theorem chr_encode_atomic_witness:
  "(4::nat) \<le> length [0, 0, 0, 0 :: u8] \<and>
   chr_encode 0x20AC [0, 0, 0, 0] 1 4 = Inr (EOK, [0, 0xE2, 0x82, 0xAC], 4) \<and>
   chr_encode 0x20AC [0, 0, 0, 0] 2 4 = Inr (EOVERFLOW, [0, 0, 0, 0], 2) \<and>
   chr_encode 0x110000 [0, 0, 0, 0] 1 4 = Inr (EINVAL, [0, 0, 0, 0], 1)"
  using chr_encode_atomic [of 4 "[0, 0, 0, 0]" "0x20AC" 1]
  by (simp add: chr_encode_3 chr_encode_invalid wr_def LO_MASK_32_vals HI_MASK_8_vals CONT_BITS_def)

section \<open>When the encoder returns \<open>EINVAL\<close>\<close>

text \<open>
  C10 as stated fails: with no room left (\<open>offset \<ge> sz\<close>) the first test of
  \<^verbatim>\<open>chr_encode\<close> returns \<open>EOVERFLOW\<close>, also for a character above \<open>0x10FFFF\<close>.
\<close>

theorem chr_encode_einval_counterexample:
  "(0x110000 :: char32_t) > 0x10FFFF \<and> chr_encode 0x110000 [0x41] 1 1 = Inr (EOVERFLOW, [0x41], 1)"
  by (simp add: chr_encode_overflow)

text \<open>
  C10, amended.  When there is room for one byte at least (\<open>offset < sz\<close>),
  \<^verbatim>\<open>chr_encode\<close> returns \<open>EINVAL\<close> exactly when the character is above \<open>0x10FFFF\<close>; and
  for a surrogate \<open>0xD800 .. 0xDFFF\<close> with room for three bytes it returns \<open>EOK\<close> and
  writes the three bytes \<open>0xED\<close>, \<open>0x80 | ((ch >> 6) & 0x3F)\<close>, \<open>0x80 | (ch & 0x3F)\<close>.
\<close>

theorem chr_encode_einval_iff:
  assumes off: "offset < sz" and len: "sz \<le> length str"
  shows "((\<exists>str' offset'. chr_encode ch str offset sz = Inr (EINVAL, str', offset')) \<longleftrightarrow> ch > 0x10FFFF)
    \<and> (0xD800 \<le> ch \<and> ch \<le> 0xDFFF \<and> offset + 2 < sz \<longrightarrow>
         chr_encode ch str offset sz =
           Inr (EOK, str[offset + 2 := ucast (0x80 OR (ch AND 0x3F)),
                         offset + 1 := ucast (0x80 OR (drop_bit 6 ch AND 0x3F)),
                         offset := 0xED], offset + 3))"
  unfolding cmp_unat
proof -
  consider (a) "unat ch < 128" | (b) "128 \<le> unat ch" "unat ch < 2048"
    | (c) "2048 \<le> unat ch" "unat ch < 65536" | (d) "65536 \<le> unat ch" "unat ch \<le> 1114111"
    | (e) "1114111 < unat ch" by linarith
  then show "((\<exists>str' offset'. chr_encode ch str offset sz = Inr (EINVAL, str', offset')) \<longleftrightarrow> 1114111 < unat ch)
    \<and> (55296 \<le> unat ch \<and> unat ch \<le> 57343 \<and> offset + 2 < sz \<longrightarrow>
         chr_encode ch str offset sz =
           Inr (EOK, str[offset + 2 := ucast (0x80 OR (ch AND 0x3F)),
                         offset + 1 := ucast (0x80 OR (drop_bit 6 ch AND 0x3F)),
                         offset := 0xED], offset + 3))"
  proof cases
    case a
    with off len show ?thesis
      by (simp add: chr_encode_ascii)
  next
    case b
    with off len show ?thesis
      by (simp add: chr_encode_2 wr_def)
  next
    case c
    have "chr_encode ch str offset sz =
           Inr (EOK, str[offset + 2 := ucast (0x80 OR (ch AND 0x3F)),
                         offset + 1 := ucast (0x80 OR (drop_bit 6 ch AND 0x3F)),
                         offset := 0xED], offset + 3)"
      if "55296 \<le> unat ch" "unat ch \<le> 57343" "offset + 2 < sz"
      using that c off len surrogate_lead [OF that(1,2)]
      by (simp add: chr_encode_3 wr_def) (simp add: CONT_BITS_def LO_MASK_32_vals)
    moreover have "\<not> 1114111 < unat ch" using c by simp
    moreover have "\<not> (\<exists>str' offset'. chr_encode ch str offset sz = Inr (EINVAL, str', offset'))"
      using c off len by (simp add: chr_encode_3 wr_def)
    ultimately show ?thesis
      by simp
  next
    case d
    with off len show ?thesis
      by (simp add: chr_encode_4 wr_def)
  next
    case e
    with off show ?thesis
      by (simp add: chr_encode_invalid)
  qed
qed

theorem chr_encode_einval_iff_witness:
  "(1::nat) < 4 \<and> (4::nat) \<le> length [0, 0, 0, 0 :: u8] \<and>
   (0xD800 :: char32_t) \<le> 0xDABC \<and> (0xDABC :: char32_t) \<le> 0xDFFF \<and>
   chr_encode 0xDABC [0, 0, 0, 0] 1 4 = Inr (EOK, [0, 0xED, 0xAA, 0xBC], 4)"
proof -
  have 1: "(1::nat) < 4" and 2: "(4::nat) \<le> length [0, 0, 0, 0 :: u8]" by simp_all
  have 3: "(0xD800 :: char32_t) \<le> 0xDABC \<and> (0xDABC :: char32_t) \<le> 0xDFFF \<and> (1::nat) + 2 < 4" by simp
  have "chr_encode 0xDABC [0, 0, 0, 0] 1 4 =
           Inr (EOK, [0, 0, 0, 0][1 + 2 := ucast (0x80 OR ((0xDABC::char32_t) AND 0x3F)),
                         1 + 1 := ucast (0x80 OR (drop_bit 6 (0xDABC::char32_t) AND 0x3F)),
                         1 := 0xED], 1 + 3)"
    by (rule chr_encode_einval_iff [OF 1 2, of "0xDABC", THEN conjunct2, THEN mp, OF 3])
  then show ?thesis by simp
qed

lemma fast_True:
  "fast2 s offset sz = Inr True \<Longrightarrow> offset < sz"
  "fast3 s offset sz = Inr True \<Longrightarrow> offset + 1 < sz"
  "fast4 s offset sz = Inr True \<Longrightarrow> offset + 2 < sz"
  by (auto simp: fast2_def fast3_def fast4_def and_then_def split: if_splits)

lemma u_str_decode_loop_bounds:
  "u_str_decode_loop s offset sz mb = Inr (r, offset', mb') \<Longrightarrow> offset \<le> sz \<Longrightarrow>
   offset \<le> offset' \<and> offset' \<le> sz"
proof (induction s offset sz mb rule: u_str_decode_loop.induct)
  case (1 s offset sz mb)
  show ?case
  proof (cases "offset < sz")
    case False
    with "1.prems" show ?thesis
      by (simp add: u_str_decode_loop.simps [of s offset sz mb] split: if_splits)
  next
    case True
    from "1.prems"(1) obtain b where b: "rd s offset = Inr b"
      using True by (auto simp: u_str_decode_loop.simps [of s offset sz mb] split: sum.splits)
    show ?thesis
    proof (cases "\<not> u_is_continuation b \<or> u_is_non_shortest mb b \<or> u_is_surrogate mb b")
      case bad: True
      with "1.prems" True b show ?thesis
        by (simp add: u_str_decode_loop.simps [of s offset sz mb])
    next
      case ok: False
      show ?thesis
      proof (cases "state mb AND 0x8000 = 0")
        case z: True
        with "1.prems" True b ok show ?thesis
          by (simp add: u_str_decode_loop.simps [of s offset sz mb])
      next
        case nz: False
        have "u_str_decode_loop s (offset + 1) sz
                    (mb\<lparr>state := ucast (push_bit 6 (ucast (state mb) :: 32 word)
                                         OR ucast (b AND UTF8_MASK_CONT))\<rparr>) = Inr (r, offset', mb')"
          using "1.prems"(1) True b ok nz
          by (simp add: u_str_decode_loop.simps [of s offset sz mb])
        from "1.IH" [OF True b ok nz this] True show ?thesis by simp
      qed
    qed
  qed
qed

lemma rd_take: "i < sz \<Longrightarrow> rd (take sz s) i = rd s i"
  by (simp add: rd_def)

lemma u_str_decode_loop_take:
  "u_str_decode_loop (take sz s) offset sz mb = u_str_decode_loop s offset sz mb"
proof (induction s offset sz mb rule: u_str_decode_loop.induct)
  case (1 s offset sz mb)
  show ?case
  proof (cases "offset < sz")
    case False
    then show ?thesis
      by (simp add: u_str_decode_loop.simps [of _ offset sz mb])
  next
    case True
    show ?thesis
      using True "1.IH"
      by (simp add: u_str_decode_loop.simps [of _ offset sz mb] rd_take split: sum.splits)
  qed
qed

lemma u_str_decode_loop_no_oob:
  "sz \<le> length s \<Longrightarrow> u_str_decode_loop s offset sz mb \<noteq> Inl OutOfBounds"
proof (induction s offset sz mb rule: u_str_decode_loop.induct)
  case (1 s offset sz mb)
  show ?case
  proof (cases "offset < sz")
    case False
    then show ?thesis
      by (simp add: u_str_decode_loop.simps [of _ offset sz mb])
  next
    case True
    with "1.prems" have "rd s offset = Inr (s ! offset)" by (simp add: rd_def)
    then show ?thesis
      using True "1.IH" "1.prems"
      by (simp add: u_str_decode_loop.simps [of _ offset sz mb])
  qed
qed


lemma u_str_decode_bounds:
  assumes "u_str_decode s offset sz mb = Inr (r, offset', mb')"
  shows "offset \<le> offset' \<and> offset' \<le> sz"
proof -
  have le: "offset \<le> sz" using assms by (simp add: u_str_decode_def split: if_splits)
  show ?thesis
  proof (cases "offset = sz")
    case True
    with assms show ?thesis by (simp add: u_str_decode_def)
  next
    case False
    with le have lt: "offset < sz" by simp
    show ?thesis
    proof (cases "state mb = 0")
      case nz: False
      with assms lt have "u_str_decode_loop s offset sz mb = Inr (r, offset', mb')"
        by (simp add: u_str_decode_def)
      from u_str_decode_loop_bounds [OF this le] show ?thesis .
    next
      case z: True
      have loop: "offset \<le> offset' \<and> offset' \<le> sz"
        if "u_str_decode_loop s (offset + 1) sz m = Inr (r, offset', mb')" for m
        using u_str_decode_loop_bounds [OF that] lt by simp
      show ?thesis
        using assms lt fast_True [of s "offset + 1" sz] loop
        unfolding u_str_decode_clean [OF lt z]
        by (auto simp: Let_def split: sum.splits if_splits bool.splits)
    qed
  qed
qed

lemma cont_at_take: "i < sz \<Longrightarrow> cont_at (take sz s) i = cont_at s i"
  by (simp add: cont_at_def rd_take)

lemma fast_take:
  "fast2 (take sz s) offset sz = fast2 s offset sz"
  "fast3 (take sz s) offset sz = fast3 s offset sz"
  "fast4 (take sz s) offset sz = fast4 s offset sz"
  by (auto simp add: fast2_def fast3_def fast4_def and_then_def cont_at_take split: sum.splits)

lemma u_str_decode_take:
  "u_str_decode (take sz s) offset sz mb = u_str_decode s offset sz mb"
proof (cases "offset < sz \<and> state mb = 0")
  case False
  then show ?thesis
    by (auto simp: u_str_decode_def u_str_decode_loop_take)
next
  case True
  then have lt: "offset < sz" and z: "state mb = 0" by simp_all
  have nth: "take sz s ! (offset + 1) = s ! (offset + 1)" if "fast2 s (offset + 1) sz = Inr True"
    using fast_True(1) [OF that] by simp
  have nth3: "take sz s ! (offset + 1) = s ! (offset + 1) \<and> take sz s ! (offset + 2) = s ! (offset + 2)"
    if "fast3 s (offset + 1) sz = Inr True"
    using fast_True(2) [OF that] by simp
  have nth4: "take sz s ! (offset + 1) = s ! (offset + 1) \<and> take sz s ! (offset + 2) = s ! (offset + 2)
       \<and> take sz s ! (offset + 3) = s ! (offset + 3)"
    if "fast4 s (offset + 1) sz = Inr True"
    using fast_True(3) [OF that] by simp
  show ?thesis
    unfolding u_str_decode_clean [OF lt z] fast_take u_str_decode_loop_take rd_take [OF lt]
    using nth nth3 nth4
    by (auto simp: Let_def split: sum.splits bool.splits)
qed


lemma cont_at_no_oob: "i < length s \<Longrightarrow> cont_at s i \<noteq> Inl e"
  by (simp add: cont_at_in)

lemma fast_no_oob:
  assumes "sz \<le> length s"
  shows "fast2 s offset sz \<noteq> Inl e" "fast3 s offset sz \<noteq> Inl e" "fast4 s offset sz \<noteq> Inl e"
  using assms
  by (auto simp add: fast2_def fast3_def fast4_def and_then_def cont_at_in split: sum.splits)

lemma u_str_decode_no_oob:
  assumes len: "sz \<le> length s"
  shows "u_str_decode s offset sz mb \<noteq> Inl OutOfBounds"
proof (cases "offset < sz \<and> state mb = 0")
  case False
  then show ?thesis
    using u_str_decode_loop_no_oob [OF len]
    by (auto simp: u_str_decode_def)
next
  case True
  then have lt: "offset < sz" and z: "state mb = 0" by simp_all
  have rd: "rd s offset = Inr (s ! offset)" using lt len by (simp add: rd_def)
  show ?thesis
    unfolding u_str_decode_clean [OF lt z] rd
    using fast_no_oob [OF len, of "offset + 1"] u_str_decode_loop_no_oob [OF len]
    by (auto simp: Let_def split: sum.splits bool.splits)
qed

section \<open>The cursor of the decoder\<close>

text \<open>
  C8.  When \<^verbatim>\<open>_str_decode\<close>, \<^verbatim>\<open>str_decode\<close> or \<^verbatim>\<open>str_decode_r\<close> returns, the new
  offset is not below the old one and not above the size.  The decoder reads no byte at
  an index from the size on: its result on the first \<open>sz\<close> bytes of the buffer alone is
  its result on the buffer, and on a buffer of \<open>sz\<close> bytes it makes no access out of
  bounds.  A call with the offset equal to the size returns 0 and moves nothing (for
  every state, the clean one too).
\<close>

theorem u_str_decode_cursor:
  "(u_str_decode s offset sz mb = Inr (r, offset', mb') \<longrightarrow> offset \<le> offset' \<and> offset' \<le> sz)
   \<and> (str_decode U s offset sz = Inr (r, offset') \<longrightarrow> offset \<le> offset' \<and> offset' \<le> sz)
   \<and> (str_decode_r s offset sz replacement mb = Inr (r, offset', mb') \<longrightarrow>
        offset \<le> offset' \<and> offset' \<le> sz)
   \<and> u_str_decode (take sz s) offset sz mb = u_str_decode s offset sz mb
   \<and> (sz \<le> length s \<longrightarrow> u_str_decode s offset sz mb \<noteq> Inl OutOfBounds)
   \<and> u_str_decode s sz sz mb = Inr (0, sz, mb)
   \<and> str_decode U s sz sz = Inr (0, sz)"
proof -
  have 1: "u_str_decode s offset sz mb = Inr (r, offset', mb') \<longrightarrow> offset \<le> offset' \<and> offset' \<le> sz"
    using u_str_decode_bounds by blast
  have 2: "str_decode U s offset sz = Inr (r, offset') \<longrightarrow> offset \<le> offset' \<and> offset' \<le> sz"
    using u_str_decode_bounds [of s offset sz "\<lparr>state = 0\<rparr>"]
    by (auto simp: str_decode_def split: sum.splits if_splits)
  have 3: "str_decode_r s offset sz replacement mb = Inr (r, offset', mb') \<longrightarrow>
        offset \<le> offset' \<and> offset' \<le> sz"
    using u_str_decode_bounds [of s offset sz mb]
    by (auto simp: str_decode_r_def split: sum.splits if_splits)
  have 4: "u_str_decode s sz sz mb = Inr (0, sz, mb)"
    by (simp add: u_str_decode_def)
  have 5: "str_decode U s sz sz = Inr (0, sz)"
    by (simp add: str_decode_def u_str_decode_def CHAR_INVALID_def)
  show ?thesis
    using 1 2 3 4 5 u_str_decode_take [of sz s offset mb] u_str_decode_no_oob [of sz s offset mb]
    by blast
qed

theorem u_str_decode_cursor_witness:
  "u_str_decode [0xE2, 0x82, 0xAC, 0x41] 0 3 \<lparr>state = 0\<rparr> = Inr (0x20AC, 3, \<lparr>state = 0\<rparr>)
   \<and> str_decode 0x3F [0xE2, 0x82, 0xAC, 0x41] 0 3 = Inr (0x20AC, 3)
   \<and> str_decode_r [0xE2, 0x82, 0xAC, 0x41] 0 3 0x3F \<lparr>state = 0\<rparr> = Inr (0x20AC, 3, \<lparr>state = 0\<rparr>)
   \<and> (0::nat) \<le> 3 \<and> (3::nat) \<le> 3 \<and> (3::nat) \<le> length [0xE2, 0x82, 0xAC, 0x41 :: u8]
   \<and> u_str_decode (take 3 [0xE2, 0x82, 0xAC, 0x41]) 0 3 \<lparr>state = 0\<rparr>
      = u_str_decode [0xE2, 0x82, 0xAC, 0x41] 0 3 \<lparr>state = 0\<rparr>
   \<and> u_str_decode [0xE2, 0x82, 0xAC, 0x41] 0 3 \<lparr>state = 0\<rparr> \<noteq> Inl OutOfBounds"
proof -
  have d: "u_str_decode [0xE2, 0x82, 0xAC, 0x41] 0 3 \<lparr>state = 0\<rparr> = Inr (0x20AC, 3, \<lparr>state = 0\<rparr>)"
    by (simp add: u_str_decode_3 [where ch = "0x20AC"] byte_class UTF8_MASK_INITIAL3_def
        UTF8_MASK_CONT_def CHAR_INVALID_def)
  show ?thesis
    using u_str_decode_cursor [of "[0xE2, 0x82, 0xAC, 0x41]" 0 3 "\<lparr>state = 0\<rparr>" "0x20AC" 3
        "\<lparr>state = 0\<rparr>" "0x3F" "0x3F"] d
    by (simp add: str_decode_def str_decode_r_def CHAR_INVALID_def)
qed

lemma top_bit16: "(w :: u16) AND 0x8000 = 0 \<longleftrightarrow> \<not> bit w 15"
  using and_exp_eq_0_iff_not_bit [of w 15] by simp

lemma bit8_hi: "8 \<le> n \<Longrightarrow> \<not> bit (b :: u8) n"
  by (auto dest: bit_imp_le_length)

lemma lead3_top: "(ucast (b :: u8) XOR 0xFCE0 :: u16) AND 0x8000 \<noteq> 0"
  unfolding top_bit16 by (simp add: bit_simps bit8_hi)

lemma lead4_top: "(ucast (b :: u8) XOR 0xFF00 :: u16) AND 0x8000 \<noteq> 0"
  unfolding top_bit16 by (simp add: bit_simps bit8_hi)

lemma lead4_top2:
  "(ucast (push_bit 6 (ucast (ucast (b :: u8) XOR 0xFF00 :: u16) :: 32 word) OR ucast (b1 AND UTF8_MASK_CONT :: u8)) :: u16)
     AND 0x8000 \<noteq> 0"
  unfolding top_bit16 by (simp add: bit_simps bit8_hi)

lemma slow2:
  assumes "fast2 s offset sz = Inr False"
    and "u_str_decode_loop s offset sz mb = Inr (r, offset', mb')"
  shows "r = CHAR_INVALID \<or> (r = 0 \<and> state mb' \<noteq> 0)"
  using assms
  by (auto simp: u_str_decode_loop.simps [of s offset sz mb] fast2_def and_then_def cont_at_def
      split: sum.splits if_splits)

lemma loop_end:
  assumes "\<not> offset < sz" and "u_str_decode_loop s offset sz mb = Inr (r, offset', mb')"
  shows "r = 0 \<and> state mb' \<noteq> 0"
  using assms by (auto simp: u_str_decode_loop.simps [of s offset sz mb] split: if_splits)

lemma loop_bad:
  assumes "offset < sz" "rd s offset = Inr b" "\<not> u_is_continuation b"
    and "u_str_decode_loop s offset sz mb = Inr (r, offset', mb')"
  shows "r = CHAR_INVALID"
  using assms by (auto simp: u_str_decode_loop.simps [of s offset sz mb] split: if_splits)

lemma loop_step:
  assumes "offset < sz" "state mb AND 0x8000 \<noteq> 0"
    and "u_str_decode_loop s offset sz mb = Inr (r, offset', mb')"
  shows "r = CHAR_INVALID \<or> (\<exists>b. rd s offset = Inr b \<and> u_is_continuation b \<and>
           u_str_decode_loop s (offset + 1) sz
             (mb\<lparr>state := ucast (push_bit 6 (ucast (state mb) :: 32 word)
                                         OR ucast (b AND UTF8_MASK_CONT))\<rparr>) = Inr (r, offset', mb'))"
  using assms
  by (auto simp: u_str_decode_loop.simps [of s offset sz mb] split: sum.splits if_splits)


lemma fast3_False:
  assumes "fast3 s offset sz = Inr False" "offset + 1 < sz" "rd s offset = Inr b" "u_is_continuation b"
  shows "\<exists>b2. rd s (offset + 1) = Inr b2 \<and> \<not> u_is_continuation b2"
  using assms
  by (auto simp: fast3_def and_then_def cont_at_def split: sum.splits if_splits)

lemma fast4_False:
  assumes "fast4 s offset sz = Inr False" "offset + 2 < sz" "rd s offset = Inr b" "u_is_continuation b"
    "rd s (offset + 1) = Inr b2" "u_is_continuation b2"
  shows "\<exists>b3. rd s (offset + 2) = Inr b3 \<and> \<not> u_is_continuation b3"
  using assms
  by (auto simp: fast4_def and_then_def cont_at_def split: sum.splits if_splits)

lemma slow3:
  assumes f: "fast3 s offset sz = Inr False" and top: "state mb AND 0x8000 \<noteq> 0"
    and r: "u_str_decode_loop s offset sz mb = Inr (r, offset', mb')"
  shows "r = CHAR_INVALID \<or> (r = 0 \<and> state mb' \<noteq> 0)"
proof (cases "offset < sz")
  case False
  from loop_end [OF this r] show ?thesis by simp
next
  case True
  from loop_step [OF True top r] show ?thesis
  proof
    assume "r = CHAR_INVALID" then show ?thesis by simp
  next
    assume "\<exists>b. rd s offset = Inr b \<and> u_is_continuation b \<and>
           u_str_decode_loop s (offset + 1) sz
             (mb\<lparr>state := ucast (push_bit 6 (ucast (state mb) :: 32 word)
                                         OR ucast (b AND UTF8_MASK_CONT))\<rparr>) = Inr (r, offset', mb')"
    then obtain b where b: "rd s offset = Inr b" "u_is_continuation b"
      and r1: "u_str_decode_loop s (offset + 1) sz
             (mb\<lparr>state := ucast (push_bit 6 (ucast (state mb) :: 32 word)
                                         OR ucast (b AND UTF8_MASK_CONT))\<rparr>) = Inr (r, offset', mb')"
      by blast
    show ?thesis
    proof (cases "offset + 1 < sz")
      case False
      from loop_end [OF this r1] show ?thesis by simp
    next
      case lt: True
      from fast3_False [OF f lt b] obtain b2 where "rd s (offset + 1) = Inr b2" "\<not> u_is_continuation b2"
        by blast
      from loop_bad [OF lt this r1] show ?thesis by simp
    qed
  qed
qed

lemma slow4:
  assumes f: "fast4 s offset sz = Inr False"
    and r: "u_str_decode_loop s offset sz (mb\<lparr>state := ucast (b0 :: u8) XOR 0xFF00\<rparr>) = Inr (r, offset', mb')"
  shows "r = CHAR_INVALID \<or> (r = 0 \<and> state mb' \<noteq> 0)"
proof (cases "offset < sz")
  case False
  from loop_end [OF this r] show ?thesis by simp
next
  case True
  let ?mb0 = "mb\<lparr>state := ucast b0 XOR 0xFF00\<rparr>"
  have top: "state ?mb0 AND 0x8000 \<noteq> 0" using lead4_top [of b0] by simp
  from loop_step [OF True top r] show ?thesis
  proof
    assume "r = CHAR_INVALID" then show ?thesis by simp
  next
    assume "\<exists>b. rd s offset = Inr b \<and> u_is_continuation b \<and>
           u_str_decode_loop s (offset + 1) sz
             (?mb0\<lparr>state := ucast (push_bit 6 (ucast (state ?mb0) :: 32 word)
                                         OR ucast (b AND UTF8_MASK_CONT))\<rparr>) = Inr (r, offset', mb')"
    then obtain b where b: "rd s offset = Inr b" "u_is_continuation b"
      and r1: "u_str_decode_loop s (offset + 1) sz
             (?mb0\<lparr>state := ucast (push_bit 6 (ucast (state ?mb0) :: 32 word)
                                         OR ucast (b AND UTF8_MASK_CONT))\<rparr>) = Inr (r, offset', mb')"
      by blast
    let ?mb1 = "?mb0\<lparr>state := ucast (push_bit 6 (ucast (state ?mb0) :: 32 word)
                                         OR ucast (b AND UTF8_MASK_CONT))\<rparr>"
    have top1: "state ?mb1 AND 0x8000 \<noteq> 0" using lead4_top2 [of b0 b] by simp
    show ?thesis
    proof (cases "offset + 1 < sz")
      case False
      from loop_end [OF this r1] show ?thesis by simp
    next
      case lt: True
      from loop_step [OF lt top1 r1] show ?thesis
      proof
        assume "r = CHAR_INVALID" then show ?thesis by simp
      next
        assume "\<exists>b2. rd s (offset + 1) = Inr b2 \<and> u_is_continuation b2 \<and>
           u_str_decode_loop s (offset + 1 + 1) sz
             (?mb1\<lparr>state := ucast (push_bit 6 (ucast (state ?mb1) :: 32 word)
                                         OR ucast (b2 AND UTF8_MASK_CONT))\<rparr>) = Inr (r, offset', mb')"
        then obtain b2 where b2: "rd s (offset + 1) = Inr b2" "u_is_continuation b2"
          and r2: "u_str_decode_loop s (offset + 1 + 1) sz
             (?mb1\<lparr>state := ucast (push_bit 6 (ucast (state ?mb1) :: 32 word)
                                         OR ucast (b2 AND UTF8_MASK_CONT))\<rparr>) = Inr (r, offset', mb')"
          by blast
        show ?thesis
        proof (cases "offset + 1 + 1 < sz")
          case False
          from loop_end [OF this r2] show ?thesis by simp
        next
          case lt2: True
          then have "offset + 2 < sz" by simp
          from fast4_False [OF f this b b2] obtain b3
            where "rd s (offset + 2) = Inr b3" "\<not> u_is_continuation b3" by blast
          then have "rd s (offset + 1 + 1) = Inr b3" by (simp add: add.assoc)
          from loop_bad [OF lt2 this \<open>\<not> u_is_continuation b3\<close> r2] show ?thesis by simp
        qed
      qed
    qed
  qed
qed


lemma fast_True_rd:
  "fast2 s offset sz = Inr True \<Longrightarrow>
     offset < sz \<and> rd s offset = Inr (s ! offset) \<and> u_is_continuation (s ! offset)"
  "fast3 s offset sz = Inr True \<Longrightarrow>
     offset + 1 < sz \<and> rd s offset = Inr (s ! offset) \<and> u_is_continuation (s ! offset)
     \<and> rd s (offset + 1) = Inr (s ! (offset + 1)) \<and> u_is_continuation (s ! (offset + 1))"
  "fast4 s offset sz = Inr True \<Longrightarrow>
     offset + 2 < sz \<and> rd s offset = Inr (s ! offset) \<and> u_is_continuation (s ! offset)
     \<and> rd s (offset + 1) = Inr (s ! (offset + 1)) \<and> u_is_continuation (s ! (offset + 1))
     \<and> rd s (offset + 2) = Inr (s ! (offset + 2)) \<and> u_is_continuation (s ! (offset + 2))"
  by (auto simp: fast2_def fast3_def fast4_def and_then_def cont_at_def rd_def
      split: if_splits sum.splits)

lemma u_str_decode_clean_cases:
  assumes lt: "offset < sz" and z: "state mb = 0"
    and r: "u_str_decode s offset sz mb = Inr (r, offset', mb')"
  shows "r = CHAR_INVALID \<or> (r = 0 \<and> state mb' \<noteq> 0)
    \<or> (\<exists>b. rd s offset = Inr b \<and> u_is_ascii b \<and> r = ucast b \<and> offset' = offset + 1 \<and> mb' = mb)
    \<or> (\<exists>b b1. rd s offset = Inr b \<and> u_is_2_byte b \<and> b AND 0x1E \<noteq> 0 \<and> offset + 1 < sz
          \<and> rd s (offset + 1) = Inr b1 \<and> u_is_continuation b1
          \<and> r = utf8_2 b b1 \<and> offset' = offset + 2 \<and> mb' = mb)
    \<or> (\<exists>b b1 b2. rd s offset = Inr b \<and> u_is_3_byte b \<and> offset + 2 < sz
          \<and> rd s (offset + 1) = Inr b1 \<and> u_is_continuation b1
          \<and> rd s (offset + 2) = Inr b2 \<and> u_is_continuation b2
          \<and> r = utf8_3 b b1 b2 \<and> r AND 0xFFFFF800 \<noteq> 0 \<and> \<not> (r \<ge> 0xD800 \<and> r < 0xE000)
          \<and> offset' = offset + 3 \<and> mb' = mb)
    \<or> (\<exists>b b1 b2 b3. rd s offset = Inr b \<and> u_is_4_byte b \<and> offset + 3 < sz
          \<and> rd s (offset + 1) = Inr b1 \<and> u_is_continuation b1
          \<and> rd s (offset + 2) = Inr b2 \<and> u_is_continuation b2
          \<and> rd s (offset + 3) = Inr b3 \<and> u_is_continuation b3
          \<and> r = utf8_4 b b1 b2 b3 \<and> r AND 0xFFFF0000 \<noteq> 0 \<and> \<not> r \<ge> 0x110000
          \<and> offset' = offset + 4 \<and> mb' = mb)"
proof -
  from r obtain b where b: "rd s offset = Inr b"
    unfolding u_str_decode_clean [OF lt z] by (auto split: sum.splits)
  note r' = r [unfolded u_str_decode_clean [OF lt z] b sum.case]
  consider (a) "u_is_ascii b" | (c) "\<not> u_is_ascii b" "u_is_continuation b"
    | (two) "\<not> u_is_ascii b" "\<not> u_is_continuation b" "u_is_2_byte b"
    | (three) "\<not> u_is_ascii b" "\<not> u_is_continuation b" "\<not> u_is_2_byte b" "u_is_3_byte b"
    | (four) "\<not> u_is_ascii b" "\<not> u_is_continuation b" "\<not> u_is_2_byte b" "\<not> u_is_3_byte b" "u_is_4_byte b"
    | (other) "\<not> u_is_ascii b" "\<not> u_is_continuation b" "\<not> u_is_2_byte b" "\<not> u_is_3_byte b" "\<not> u_is_4_byte b"
    by blast
  then show ?thesis
  proof cases
    case a
    with r' b show ?thesis by simp
  next
    case c
    with r' show ?thesis by simp
  next
    case two
    show ?thesis
    proof (cases "b AND 0x1E = 0")
      case True
      with r' two show ?thesis by simp
    next
      case nz: False
      from r' two nz obtain f where f: "fast2 s (offset + 1) sz = Inr f"
        by (auto split: sum.splits)
      show ?thesis
      proof (cases f)
        case True
        from True f have fT: "fast2 s (offset + 1) sz = Inr True" by simp
        from fast_True_rd(1) [OF fT] r' two nz f True b show ?thesis
          by (simp add: utf8_2_def)
      next
        case False
        with f have fF: "fast2 s (offset + 1) sz = Inr False" by simp
        from False r' two nz f
        have "u_str_decode_loop s (offset + 1) sz (mb\<lparr>state := ucast b XOR 0x00C0\<rparr>) = Inr (r, offset', mb')"
          by simp
        from slow2 [OF fF this] show ?thesis by blast
      qed
    qed
  next
    case three
    from r' three obtain f where f: "fast3 s (offset + 1) sz = Inr f"
      by (auto split: sum.splits)
    show ?thesis
    proof (cases f)
      case True
      have e: "offset + 1 + 1 = offset + 2" by simp
      from True f have fT: "fast3 s (offset + 1) sz = Inr True" by simp
        from fast_True_rd(2) [OF fT, unfolded e] r' three f True b show ?thesis
        by (auto simp add: utf8_3_def Let_def split: if_splits)
    next
      case False
      with f have fF: "fast3 s (offset + 1) sz = Inr False" by simp
      from False r' three f
      have r1: "u_str_decode_loop s (offset + 1) sz (mb\<lparr>state := ucast b XOR 0xFCE0\<rparr>) = Inr (r, offset', mb')"
        by simp
      have "state (mb\<lparr>state := ucast b XOR 0xFCE0\<rparr>) AND 0x8000 \<noteq> 0"
        using lead3_top [of b] by simp
      from slow3 [OF fF this r1] show ?thesis by blast
    qed
  next
    case four
    from r' four obtain f where f: "fast4 s (offset + 1) sz = Inr f"
      by (auto split: sum.splits)
    show ?thesis
    proof (cases f)
      case True
      have e: "offset + 1 + 1 = offset + 2" "offset + 1 + 2 = offset + 3" by simp_all
      from True f have fT: "fast4 s (offset + 1) sz = Inr True" by simp
        from fast_True_rd(3) [OF fT, unfolded e] r' four f True b show ?thesis
        by (auto simp add: utf8_4_def Let_def split: if_splits)
    next
      case False
      with f have fF: "fast4 s (offset + 1) sz = Inr False" by simp
      from False r' four f
      have "u_str_decode_loop s (offset + 1) sz (mb\<lparr>state := ucast b XOR 0xFF00\<rparr>) = Inr (r, offset', mb')"
        by simp
      from slow4 [OF fF this] show ?thesis by blast
    qed
  next
    case other
    with r' show ?thesis by simp
  qed
qed

lemma utf8_unat:
  "unat (utf8_2 b b1) = (unat b mod 32) * 64 + unat b1 mod 64"
  "unat (utf8_3 b b1 b2) = (unat b mod 16) * 4096 + (unat b1 mod 64) * 64 + unat b2 mod 64"
  "unat (utf8_4 b b1 b2 b3) =
     (unat b mod 8) * 262144 + (unat b1 mod 64) * 4096 + (unat b2 mod 64) * 64 + unat b3 mod 64"
  unfolding utf8_2_def utf8_3_def utf8_4_def by (rule dec2_unat dec3_unat dec4_unat)+

lemma utf8_bound:
  "unat (utf8_2 b b1) < 2048" "unat (utf8_3 b b1 b2) < 65536"
proof -
  have "unat b mod 32 < 32" "unat b1 mod 64 < 64" by simp_all
  then show "unat (utf8_2 b b1) < 2048" unfolding utf8_unat by linarith
  have "unat b mod 16 < 16" "unat b1 mod 64 < 64" "unat b2 mod 64 < 64" by simp_all
  then show "unat (utf8_3 b b1 b2) < 65536" unfolding utf8_unat by linarith
qed

lemma scalar_unat:
  "(c::char32_t) \<le> 0x10FFFF \<longleftrightarrow> unat c \<le> 1114111"
  "(c::char32_t) \<ge> 0x110000 \<longleftrightarrow> 1114112 \<le> unat c"
  "(c::char32_t) \<ge> 0xD800 \<longleftrightarrow> 55296 \<le> unat c"
  "(c::char32_t) < 0xE000 \<longleftrightarrow> unat c < 57344"
  "(c::char32_t) \<le> 0xDFFF \<longleftrightarrow> unat c \<le> 57343"
  by (simp_all add: word_less_nat_alt word_le_nat_alt)

lemma unat_ucast_u8: "unat (ucast (b :: u8) :: char32_t) = unat b"
  using unat_u8_less [of b] by (simp add: unsigned_ucast_eq take_bit_eq_mod)

section \<open>What the one-shot decoder returns\<close>

text \<open>
  C9.  Every character that \<^verbatim>\<open>str_decode\<close> returns is 0, \<^verbatim>\<open>U_SPECIAL\<close>, or a
  Unicode scalar value: at most \<open>0x10FFFF\<close> and not a surrogate \<open>0xD800 .. 0xDFFF\<close>.
  (From a clean state the loop of the decoder never completes a character in the call
  that read the leader: only the fast paths do, and they make the checks.)
\<close>

theorem str_decode_scalar:
  assumes "str_decode U s offset sz = Inr (c, offset')"
  shows "c = 0 \<or> c = U \<or> (c \<le> 0x10FFFF \<and> \<not> (0xD800 \<le> c \<and> c \<le> 0xDFFF))"
proof -
  from assms obtain r mb' where r: "u_str_decode s offset sz \<lparr>state = 0\<rparr> = Inr (r, offset', mb')"
    and c: "c = (if r = CHAR_INVALID \<or> state mb' \<noteq> 0 then U else r)"
    by (auto simp: str_decode_def split: sum.splits if_splits)
  show ?thesis
  proof (cases "offset < sz")
    case False
    with r have "r = 0" by (auto simp: u_str_decode_def split: if_splits)
    with c show ?thesis by auto
  next
    case True
    have z: "state \<lparr>state = 0\<rparr> = 0" by simp
    from u_str_decode_clean_cases [OF True z r]
    consider (bad) "r = CHAR_INVALID \<or> (r = 0 \<and> state mb' \<noteq> 0)"
      | (one) b where "u_is_ascii b" "r = ucast b"
      | (two) b b1 where "r = utf8_2 b b1"
      | (three) b b1 b2 where "r = utf8_3 b b1 b2" "\<not> (r \<ge> 0xD800 \<and> r < 0xE000)"
      | (four) "r AND 0xFFFF0000 \<noteq> 0" "\<not> r \<ge> 0x110000"
      by blast
    then have "r = CHAR_INVALID \<or> (r = 0 \<and> state mb' \<noteq> 0) \<or>
      (unat r \<le> 1114111 \<and> \<not> (55296 \<le> unat r \<and> unat r \<le> 57343))"
    proof cases
      case bad
      then show ?thesis by blast
    next
      case one
      then have "unat r < 128" by (simp add: byte_class unat_ucast_u8)
      then show ?thesis by simp
    next
      case two
      with utf8_bound(1) [of b b1] show ?thesis by simp
    next
      case three
      with utf8_bound(2) [of b b1 b2] show ?thesis by (auto simp add: scalar_unat)
    next
      case four
      then show ?thesis by (simp add: scalar_unat and_hi_zero)
    qed
    with c show ?thesis unfolding scalar_unat by auto
  qed
qed

theorem str_decode_scalar_witness:
  "str_decode 0x3F [0xED, 0xA0, 0x80] 0 3 = Inr (0x3F, 3)
   \<and> ((0x3F :: char32_t) = 0 \<or> (0x3F :: char32_t) = 0x3F
        \<or> ((0x3F :: char32_t) \<le> 0x10FFFF \<and> \<not> (0xD800 \<le> (0x3F :: char32_t) \<and> (0x3F :: char32_t) \<le> 0xDFFF)))"
proof -
  have "u_str_decode [0xED, 0xA0, 0x80] 0 3 \<lparr>state = 0\<rparr> = Inr (CHAR_INVALID, 3, \<lparr>state = 0\<rparr>)"
    by (simp add: u_str_decode_3 [where ch = "0xD800"] byte_class UTF8_MASK_INITIAL3_def
        UTF8_MASK_CONT_def)
  then have d: "str_decode 0x3F [0xED, 0xA0, 0x80] 0 3 = Inr (0x3F, 3)"
    by (simp add: str_decode_def)
  from str_decode_scalar [OF d] d show ?thesis by simp
qed

lemma mod_off:
  fixes a :: nat
  shows "a < 32 \<Longrightarrow> (192 + a) mod 32 = a"
    "a < 16 \<Longrightarrow> (224 + a) mod 16 = a"
    "a < 8 \<Longrightarrow> (240 + a) mod 8 = a"
    "a < 64 \<Longrightarrow> (128 + a) mod 64 = a"
proof -
  have "(192 + a) mod 32 = (32 * 6 + a) mod 32" "(224 + a) mod 16 = (16 * 14 + a) mod 16"
    "(240 + a) mod 8 = (8 * 30 + a) mod 8" "(128 + a) mod 64 = (64 * 2 + a) mod 64" by simp_all
  then show "a < 32 \<Longrightarrow> (192 + a) mod 32 = a"
    "a < 16 \<Longrightarrow> (224 + a) mod 16 = a"
    "a < 8 \<Longrightarrow> (240 + a) mod 8 = a"
    "a < 64 \<Longrightarrow> (128 + a) mod 64 = a"
    by (simp_all only: mod_mult_self4 mod_less)
qed

lemma rt1:
  assumes x: "unat ch < 128"
    and room: "offset < sz" "sz \<le> length str" "offset + 1 \<le> w" "w \<le> length str"
  shows "\<exists>str'. chr_encode ch str offset sz = Inr (EOK, str', offset + 1) \<and>
     u_str_decode str' offset w \<lparr>state = 0\<rparr> = Inr (ch, offset + 1, \<lparr>state = 0\<rparr>)"
proof -
  define B0 where "B0 = (ucast ch :: u8)"
  define s where "s = str[offset := B0]"
  have e: "chr_encode ch str offset sz = Inr (EOK, s, offset + 1)"
    unfolding s_def B0_def using x room by (simp add: chr_encode_ascii)
  have u: "unat B0 = unat ch"
    unfolding B0_def using x by (simp add: unsigned_ucast_eq take_bit_eq_mod)
  have n: "s ! offset = B0" "length s = length str" unfolding s_def using room by simp_all
  have "ucast B0 = ch"
    unfolding word_unat_eq_iff unat_ucast_u8 by (rule u)
  moreover have "u_str_decode s offset w \<lparr>state = 0\<rparr> = Inr (ucast (s ! offset), offset + 1, \<lparr>state = 0\<rparr>)"
    by (rule u_str_decode_ascii) (use room x u n in simp_all)
  ultimately show ?thesis using e n by simp
qed

lemma rt2:
  assumes x: "128 \<le> unat ch" "unat ch < 2048"
    and room: "offset + 1 < sz" "sz \<le> length str" "offset + 2 \<le> w" "w \<le> length str"
  shows "\<exists>str'. chr_encode ch str offset sz = Inr (EOK, str', offset + 2) \<and>
     u_str_decode str' offset w \<lparr>state = 0\<rparr> = Inr (ch, offset + 2, \<lparr>state = 0\<rparr>)"
proof -
  define B1 where "B1 = (ucast (0x80 OR (ch AND LO_MASK_32 CONT_BITS)) :: u8)"
  define B0 where "B0 = (ucast ((drop_bit CONT_BITS ch AND LO_MASK_32 5) OR HI_MASK_8 2) :: u8)"
  define s where "s = str[offset + 1 := B1, offset := B0]"
  define a where "a = unat ch div 64"
  define r where "r = unat ch mod 64"
  have xa: "a * 64 + r = unat ch" unfolding a_def r_def by simp
  have a: "2 \<le> a" "a < 32" using x unfolding a_def
    by (simp_all add: less_eq_div_iff_mult_less_eq div_less_iff_less_mult)
  have r: "r < 64" unfolding r_def by simp
  have e: "chr_encode ch str offset sz = Inr (EOK, s, offset + 2)"
    unfolding s_def B0_def B1_def using x room by (simp add: chr_encode_2 wr_def)
  have n: "s ! offset = B0" "s ! (offset + 1) = B1" "length s = length str"
    unfolding s_def using room by simp_all
  have u0: "unat B0 = 192 + a"
    unfolding B0_def enc_lead2 unat_drop6 a_def [symmetric] using a by simp
  have u1: "unat B1 = 128 + r" unfolding B1_def r_def by (rule enc_cont_byte)
  have c1: "u_is_continuation B1" unfolding byte_class u1 using r by simp
  have "u_str_decode s offset w \<lparr>state = 0\<rparr> =
      Inr (utf8_2 (s ! offset) (s ! (offset + 1)), offset + 2, \<lparr>state = 0\<rparr>)"
    unfolding utf8_2_def
    by (rule u_str_decode_2) (use room a u0 c1 n in simp_all)
  then have d: "u_str_decode s offset w \<lparr>state = 0\<rparr> = Inr (utf8_2 B0 B1, offset + 2, \<lparr>state = 0\<rparr>)"
    by (simp only: n)
  have "unat (utf8_2 B0 B1) = unat ch"
    unfolding utf8_unat u0 u1 using xa a r by (simp add: mod_off)
  then have "utf8_2 B0 B1 = ch" by (simp add: word_unat_eq_iff)
  with d e show ?thesis by simp
qed

lemma rt3:
  assumes x: "2048 \<le> unat ch" "unat ch < 65536" "\<not> (55296 \<le> unat ch \<and> unat ch < 57344)"
    and room: "offset + 2 < sz" "sz \<le> length str" "offset + 3 \<le> w" "w \<le> length str"
  shows "\<exists>str'. chr_encode ch str offset sz = Inr (EOK, str', offset + 3) \<and>
     u_str_decode str' offset w \<lparr>state = 0\<rparr> = Inr (ch, offset + 3, \<lparr>state = 0\<rparr>)"
proof -
  define B2 where "B2 = (ucast (0x80 OR (ch AND LO_MASK_32 CONT_BITS)) :: u8)"
  define B1 where "B1 = (ucast (0x80 OR (drop_bit CONT_BITS ch AND LO_MASK_32 CONT_BITS)) :: u8)"
  define B0 where
    "B0 = (ucast ((drop_bit CONT_BITS (drop_bit CONT_BITS ch) AND LO_MASK_32 4) OR HI_MASK_8 3) :: u8)"
  define s where "s = str[offset + 2 := B2, offset + 1 := B1, offset := B0]"
  define a where "a = unat ch div 64"
  define r where "r = unat ch mod 64"
  define b where "b = a div 64"
  define q where "q = a mod 64"
  have xa: "a * 64 + r = unat ch" unfolding a_def r_def by simp
  have ab: "b * 64 + q = a" unfolding b_def q_def by simp
  have a: "a < 1024" using x unfolding a_def by (simp add: div_less_iff_less_mult)
  then have b: "b < 16" unfolding b_def by (simp add: div_less_iff_less_mult)
  have r: "r < 64" and q: "q < 64" unfolding r_def q_def by simp_all
  have e: "chr_encode ch str offset sz = Inr (EOK, s, offset + 3)"
    unfolding s_def B0_def B1_def B2_def using x room by (simp add: chr_encode_3 wr_def)
  have n: "s ! offset = B0" "s ! (offset + 1) = B1" "s ! (offset + 2) = B2" "length s = length str"
    unfolding s_def using room by simp_all
  have u0: "unat B0 = 224 + b"
    unfolding B0_def enc_lead3 unat_drop6 a_def [symmetric] b_def [symmetric] using b by simp
  have u1: "unat B1 = 128 + q"
    unfolding B1_def enc_cont_byte unat_drop6 a_def [symmetric] q_def [symmetric] by (rule refl)
  have u2: "unat B2 = 128 + r" unfolding B2_def r_def by (rule enc_cont_byte)
  have c: "u_is_continuation B1" "u_is_continuation B2"
    unfolding byte_class u1 u2 using r q by simp_all
  have v: "unat (utf8_3 B0 B1 B2) = unat ch"
    unfolding utf8_unat u0 u1 u2 using xa ab b q r by (simp add: mod_off)
  then have w: "utf8_3 B0 B1 B2 = ch" by (simp add: word_unat_eq_iff)
  have "u_str_decode s offset w \<lparr>state = 0\<rparr> =
      Inr (if unat (utf8_3 B0 B1 B2) < 2048
              \<or> (55296 \<le> unat (utf8_3 B0 B1 B2) \<and> unat (utf8_3 B0 B1 B2) < 57344)
           then CHAR_INVALID else utf8_3 B0 B1 B2, offset + 3, \<lparr>state = 0\<rparr>)"
    by (rule u_str_decode_3) (use room b u0 c n in \<open>simp_all add: utf8_3_def\<close>)
  then have "u_str_decode s offset w \<lparr>state = 0\<rparr> = Inr (ch, offset + 3, \<lparr>state = 0\<rparr>)"
    unfolding v w using x by simp
  with e show ?thesis by simp
qed

lemma rt4:
  assumes x: "65536 \<le> unat ch" "unat ch \<le> 1114111"
    and room: "offset + 3 < sz" "sz \<le> length str" "offset + 4 \<le> w" "w \<le> length str"
  shows "\<exists>str'. chr_encode ch str offset sz = Inr (EOK, str', offset + 4) \<and>
     u_str_decode str' offset w \<lparr>state = 0\<rparr> = Inr (ch, offset + 4, \<lparr>state = 0\<rparr>)"
proof -
  define B3 where "B3 = (ucast (0x80 OR (ch AND LO_MASK_32 CONT_BITS)) :: u8)"
  define B2 where "B2 = (ucast (0x80 OR (drop_bit CONT_BITS ch AND LO_MASK_32 CONT_BITS)) :: u8)"
  define B1 where
    "B1 = (ucast (0x80 OR (drop_bit CONT_BITS (drop_bit CONT_BITS ch) AND LO_MASK_32 CONT_BITS)) :: u8)"
  define B0 where
    "B0 = (ucast ((drop_bit CONT_BITS (drop_bit CONT_BITS (drop_bit CONT_BITS ch)) AND LO_MASK_32 3)
             OR HI_MASK_8 4) :: u8)"
  define s where "s = str[offset + 3 := B3, offset + 2 := B2, offset + 1 := B1, offset := B0]"
  define a where "a = unat ch div 64"
  define r where "r = unat ch mod 64"
  define b where "b = a div 64"
  define q where "q = a mod 64"
  define c where "c = b div 64"
  define p where "p = b mod 64"
  have xa: "a * 64 + r = unat ch" unfolding a_def r_def by simp
  have ab: "b * 64 + q = a" unfolding b_def q_def by simp
  have bc: "c * 64 + p = b" unfolding c_def p_def by simp
  have a: "a < 32768" using x unfolding a_def by (simp add: div_less_iff_less_mult)
  then have b: "b < 512" unfolding b_def by (simp add: div_less_iff_less_mult)
  then have c: "c < 8" unfolding c_def by (simp add: div_less_iff_less_mult)
  have r: "r < 64" and q: "q < 64" and p: "p < 64" unfolding r_def q_def p_def by simp_all
  have e: "chr_encode ch str offset sz = Inr (EOK, s, offset + 4)"
    unfolding s_def B0_def B1_def B2_def B3_def using x room by (simp add: chr_encode_4 wr_def)
  have n: "s ! offset = B0" "s ! (offset + 1) = B1" "s ! (offset + 2) = B2" "s ! (offset + 3) = B3"
    "length s = length str"
    unfolding s_def using room by simp_all
  have u0: "unat B0 = 240 + c"
    unfolding B0_def enc_lead4 unat_drop6 a_def [symmetric] b_def [symmetric] c_def [symmetric]
    using c by simp
  have u1: "unat B1 = 128 + p"
    unfolding B1_def enc_cont_byte unat_drop6 a_def [symmetric] b_def [symmetric] p_def [symmetric]
    by (rule refl)
  have u2: "unat B2 = 128 + q"
    unfolding B2_def enc_cont_byte unat_drop6 a_def [symmetric] q_def [symmetric] by (rule refl)
  have u3: "unat B3 = 128 + r" unfolding B3_def r_def by (rule enc_cont_byte)
  have cc: "u_is_continuation B1" "u_is_continuation B2" "u_is_continuation B3"
    unfolding byte_class u1 u2 u3 using r q p by simp_all
  have v: "unat (utf8_4 B0 B1 B2 B3) = unat ch"
    unfolding utf8_unat u0 u1 u2 u3 using xa ab bc c p q r by (simp add: mod_off)
  then have w: "utf8_4 B0 B1 B2 B3 = ch" by (simp add: word_unat_eq_iff)
  have "u_str_decode s offset w \<lparr>state = 0\<rparr> =
      Inr (if unat (utf8_4 B0 B1 B2 B3) < 65536 \<or> 1114112 \<le> unat (utf8_4 B0 B1 B2 B3)
           then CHAR_INVALID else utf8_4 B0 B1 B2 B3, offset + 4, \<lparr>state = 0\<rparr>)"
    by (rule u_str_decode_4) (use room c u0 cc n in \<open>simp_all add: utf8_4_def\<close>)
  then have "u_str_decode s offset w \<lparr>state = 0\<rparr> = Inr (ch, offset + 4, \<lparr>state = 0\<rparr>)"
    unfolding v w using x by simp
  with e show ?thesis by simp
qed

lemma str_decode_of_clean:
  assumes "u_str_decode s offset w \<lparr>state = 0\<rparr> = Inr (ch, offset', \<lparr>state = 0\<rparr>)"
    and "unat ch \<le> 1114111"
  shows "str_decode U s offset w = Inr (ch, offset')"
proof -
  have "ch \<noteq> CHAR_INVALID" using assms(2) by (auto simp: CHAR_INVALID_def)
  then show ?thesis using assms(1) by (simp add: str_decode_def)
qed

section \<open>Encoding, then decoding\<close>

text \<open>
  C1.  For every scalar value (at most \<open>0x10FFFF\<close>, not a surrogate), \<^verbatim>\<open>chr_encode\<close>
  into a buffer with room for four bytes returns \<open>EOK\<close> after writing \<open>n\<close> bytes, \<open>n\<close>
  from 1 to 4, and \<^verbatim>\<open>str_decode\<close> from the offset of the encoder returns the scalar and
  moves the offset over exactly these \<open>n\<close> bytes: when it is given the bytes written
  only (size \<open>offset + n\<close>) and when it is given the size of the buffer.  The offset 0
  of the claim is an instance.
\<close>

theorem chr_encode_str_decode_roundtrip:
  assumes valid: "ch \<le> 0x10FFFF" "\<not> (0xD800 \<le> ch \<and> ch \<le> 0xDFFF)"
    and room: "offset + 4 \<le> sz" "sz \<le> length str"
  shows "\<exists>str' n. chr_encode ch str offset sz = Inr (EOK, str', offset + n) \<and> 1 \<le> n \<and> n \<le> 4
     \<and> str_decode U str' offset (offset + n) = Inr (ch, offset + n)
     \<and> str_decode U str' offset sz = Inr (ch, offset + n)"
proof -
  have x: "unat ch \<le> 1114111" "\<not> (55296 \<le> unat ch \<and> unat ch < 57344)"
    using valid unfolding scalar_unat by auto
  have both: "\<exists>str'. chr_encode ch str offset sz = Inr (EOK, str', offset + n)
     \<and> str_decode U str' offset (offset + n) = Inr (ch, offset + n)
     \<and> str_decode U str' offset sz = Inr (ch, offset + n)"
    if 1: "\<And>w. offset + n \<le> w \<Longrightarrow> w \<le> length str \<Longrightarrow>
        \<exists>str'. chr_encode ch str offset sz = Inr (EOK, str', offset + n) \<and>
          u_str_decode str' offset w \<lparr>state = 0\<rparr> = Inr (ch, offset + n, \<lparr>state = 0\<rparr>)"
      and n: "n \<le> 4" for n
  proof -
    from 1 [of "offset + n"] room n obtain s1
      where s1: "chr_encode ch str offset sz = Inr (EOK, s1, offset + n)"
        "u_str_decode s1 offset (offset + n) \<lparr>state = 0\<rparr> = Inr (ch, offset + n, \<lparr>state = 0\<rparr>)"
      by auto
    from 1 [of sz] room n obtain s2
      where s2: "chr_encode ch str offset sz = Inr (EOK, s2, offset + n)"
        "u_str_decode s2 offset sz \<lparr>state = 0\<rparr> = Inr (ch, offset + n, \<lparr>state = 0\<rparr>)"
      by auto
    from s1(1) s2(1) have "s2 = s1" by simp
    with s1 s2 x(1) show ?thesis by (simp add: str_decode_of_clean)
  qed
  consider (a) "unat ch < 128" | (b) "128 \<le> unat ch" "unat ch < 2048"
    | (c) "2048 \<le> unat ch" "unat ch < 65536" | (d) "65536 \<le> unat ch"
    by linarith
  then show ?thesis
  proof cases
    case a
    have 1: "\<exists>str'. chr_encode ch str offset sz = Inr (EOK, str', offset + 1) \<and>
          u_str_decode str' offset w \<lparr>state = 0\<rparr> = Inr (ch, offset + 1, \<lparr>state = 0\<rparr>)"
      if "offset + 1 \<le> w" "w \<le> length str" for w
      by (rule rt1) (use that a room in simp_all)
    from both [of 1, OF 1] obtain s' where
      "chr_encode ch str offset sz = Inr (EOK, s', offset + 1)"
      "str_decode U s' offset (offset + 1) = Inr (ch, offset + 1)"
      "str_decode U s' offset sz = Inr (ch, offset + 1)" by auto
    then show ?thesis
      by (intro exI [where x = s'] exI [where x = 1]) simp
  next
    case b
    have 1: "\<exists>str'. chr_encode ch str offset sz = Inr (EOK, str', offset + 2) \<and>
          u_str_decode str' offset w \<lparr>state = 0\<rparr> = Inr (ch, offset + 2, \<lparr>state = 0\<rparr>)"
      if "offset + 2 \<le> w" "w \<le> length str" for w
      by (rule rt2) (use that b room in simp_all)
    from both [of 2, OF 1] obtain s' where
      "chr_encode ch str offset sz = Inr (EOK, s', offset + 2)"
      "str_decode U s' offset (offset + 2) = Inr (ch, offset + 2)"
      "str_decode U s' offset sz = Inr (ch, offset + 2)" by auto
    then show ?thesis
      by (intro exI [where x = s'] exI [where x = 2]) simp
  next
    case c
    have 1: "\<exists>str'. chr_encode ch str offset sz = Inr (EOK, str', offset + 3) \<and>
          u_str_decode str' offset w \<lparr>state = 0\<rparr> = Inr (ch, offset + 3, \<lparr>state = 0\<rparr>)"
      if "offset + 3 \<le> w" "w \<le> length str" for w
      by (rule rt3) (use that c x room in simp_all)
    from both [of 3, OF 1] obtain s' where
      "chr_encode ch str offset sz = Inr (EOK, s', offset + 3)"
      "str_decode U s' offset (offset + 3) = Inr (ch, offset + 3)"
      "str_decode U s' offset sz = Inr (ch, offset + 3)" by auto
    then show ?thesis
      by (intro exI [where x = s'] exI [where x = 3]) simp
  next
    case d
    have 1: "\<exists>str'. chr_encode ch str offset sz = Inr (EOK, str', offset + 4) \<and>
          u_str_decode str' offset w \<lparr>state = 0\<rparr> = Inr (ch, offset + 4, \<lparr>state = 0\<rparr>)"
      if "offset + 4 \<le> w" "w \<le> length str" for w
      by (rule rt4) (use that d x room in simp_all)
    from both [of 4, OF 1] obtain s' where
      "chr_encode ch str offset sz = Inr (EOK, s', offset + 4)"
      "str_decode U s' offset (offset + 4) = Inr (ch, offset + 4)"
      "str_decode U s' offset sz = Inr (ch, offset + 4)" by auto
    then show ?thesis
      by (intro exI [where x = s'] exI [where x = 4]) simp
  qed
qed

theorem chr_encode_str_decode_roundtrip_witness:
  "(0x20AC :: char32_t) \<le> 0x10FFFF \<and> \<not> (0xD800 \<le> (0x20AC :: char32_t) \<and> (0x20AC :: char32_t) \<le> 0xDFFF)
   \<and> (0::nat) + 4 \<le> 4 \<and> (4::nat) \<le> length [0, 0, 0, 0 :: u8]
   \<and> chr_encode 0x20AC [0, 0, 0, 0] 0 4 = Inr (EOK, [0xE2, 0x82, 0xAC, 0], 3)
   \<and> str_decode 0x3F [0xE2, 0x82, 0xAC, 0] 0 3 = Inr (0x20AC, 3)
   \<and> str_decode 0x3F [0xE2, 0x82, 0xAC, 0] 0 4 = Inr (0x20AC, 3)"
proof -
  have e: "chr_encode 0x20AC [0, 0, 0, 0] 0 4 = Inr (EOK, [0xE2, 0x82, 0xAC, 0], 3)"
    by (simp add: chr_encode_3 wr_def LO_MASK_32_vals HI_MASK_8_vals CONT_BITS_def)
  have v: "(0x20AC :: char32_t) \<le> 0x10FFFF" "\<not> (0xD800 \<le> (0x20AC :: char32_t) \<and> (0x20AC :: char32_t) \<le> 0xDFFF)"
    "(0::nat) + 4 \<le> 4" "(4::nat) \<le> length [0, 0, 0, 0 :: u8]" by simp_all
  from chr_encode_str_decode_roundtrip [OF v, of "0x3F"] e v show ?thesis
    by auto
qed

end
